theory Spec2Isabelle
  imports Complex_Main "HOL-Library.Word" "HOL-Library.Log_Nat"
begin

unbundle bit_operations_syntax

section \<open>Audio utilities (scripts/audio\_utils.py)\<close>

text \<open>
  The module converts between normalised floating-point samples and 16-bit PCM, moves PCM
  buffers through base64 text, resamples by linear interpolation, cuts a buffer into
  chunks and accumulates chunks in \<open>AudioBuffer\<close>.

  Exceptions are values: every function that can raise returns \<open>error + 'a\<close>, with
  \<open>Inl\<close> for the exception. \<open>binascii.Error\<close> is kept apart from \<open>ValueError\<close>
  (in Python it is a subclass of it) so that the two failure sites of decoding stay visible.
\<close>

datatype error = ValueError | Binascii_Error | ZeroDivisionError | OverflowError

type_synonym byte = "8 word"
type_synonym int16 = "16 word"

definition INPUT_SAMPLE_RATE :: int where
  "INPUT_SAMPLE_RATE = 16000"

definition OUTPUT_SAMPLE_RATE :: int where
  "OUTPUT_SAMPLE_RATE = 24000"

subsection \<open>Library: base64 (binascii)\<close>

text \<open>
  \<open>base64.b64encode\<close> and \<open>base64.b64decode\<close> belong to the Python standard library.
  They are modelled after CPython's \<open>binascii\<close>: the encoder emits one group of four
  characters for three bytes and pads the last group with \<open>=\<close>; the decoder is the
  non-strict one (\<open>validate=False\<close>, the default that the module uses), a single pass
  with the state \<open>quad_pos\<close>, \<open>leftchar\<close>, \<open>pads\<close>.
\<close>

definition b64_alphabet :: string where
  "b64_alphabet = ''ABCDEFGHIJKLMNOPQRSTUVWXYZabcdefghijklmnopqrstuvwxyz0123456789+/''"

definition b64_char :: "byte \<Rightarrow> char" where
  "b64_char v = b64_alphabet ! unat v"

fun index_of :: "'a list \<Rightarrow> 'a \<Rightarrow> nat \<Rightarrow> nat option" where
  "index_of [] c i = None"
| "index_of (x # xs) c i = (if x = c then Some i else index_of xs c (Suc i))"

definition b64_value :: "char \<Rightarrow> byte option" where
  "b64_value c = map_option of_nat (index_of b64_alphabet c 0)"

fun b2a_base64 :: "byte list \<Rightarrow> string" where
  "b2a_base64 [] = []"
| "b2a_base64 [a] =
     [b64_char (drop_bit 2 a), b64_char (push_bit 4 (a AND 3)), CHR ''='', CHR ''='']"
| "b2a_base64 [a, b] =
     [b64_char (drop_bit 2 a), b64_char (push_bit 4 (a AND 3) OR drop_bit 4 b),
      b64_char (push_bit 2 (b AND 15)), CHR ''='']"
| "b2a_base64 (a # b # c # rest) =
     [b64_char (drop_bit 2 a), b64_char (push_bit 4 (a AND 3) OR drop_bit 4 b),
      b64_char (push_bit 2 (b AND 15) OR drop_bit 6 c), b64_char (c AND 63)]
     @ b2a_base64 rest"

definition emit :: "byte \<Rightarrow> error + byte list \<Rightarrow> error + byte list" where
  "emit b r = (case r of Inl e \<Rightarrow> Inl e | Inr bs \<Rightarrow> Inr (b # bs))"

text \<open>
  The decoding loop. A pad character ends the input once \<open>quad_pos + pads\<close> reaches 4 in
  a quad that holds at least two data characters, and is skipped otherwise; a character
  outside the alphabet is skipped; a data character resets \<open>pads\<close> and fills the quad.
  At the end of the input a quad left open is an error (incorrect padding).
\<close>

fun a2b_loop :: "nat \<Rightarrow> byte \<Rightarrow> nat \<Rightarrow> string \<Rightarrow> error + byte list" where
  "a2b_loop quad_pos leftchar pads [] =
     (if quad_pos \<noteq> 0 then Inl Binascii_Error else Inr [])"
| "a2b_loop quad_pos leftchar pads (this_ch # rest) =
     (if this_ch = CHR ''='' then
        (if quad_pos \<ge> 2 then
           (if quad_pos + (pads + 1) \<ge> 4 then Inr []
            else a2b_loop quad_pos leftchar (pads + 1) rest)
         else a2b_loop quad_pos leftchar pads rest)
      else
        (case b64_value this_ch of
           None \<Rightarrow> a2b_loop quad_pos leftchar pads rest
         | Some v \<Rightarrow>
             (if quad_pos = 0 then a2b_loop 1 v 0 rest
              else if quad_pos = 1 then
                emit (push_bit 2 leftchar OR drop_bit 4 v) (a2b_loop 2 (v AND 15) 0 rest)
              else if quad_pos = 2 then
                emit (push_bit 4 leftchar OR drop_bit 2 v) (a2b_loop 3 (v AND 3) 0 rest)
              else
                emit (push_bit 6 leftchar OR v) (a2b_loop 0 0 0 rest))))"

definition a2b_base64 :: "string \<Rightarrow> error + byte list" where
  "a2b_base64 s = a2b_loop 0 0 0 s"

text \<open>
  \<open>b64encode\<close> returns ASCII bytes, which the module turns into a \<open>str\<close>.
  \<open>b64decode\<close> of a \<open>str\<close> first encodes it as ASCII and raises \<open>ValueError\<close> at a
  character that is not ASCII. A \<open>string\<close> here is a list of 8-bit characters; a code
  point of 128 or more stands for any non-ASCII character of the Python string.
\<close>

definition b64encode :: "byte list \<Rightarrow> string" where
  "b64encode bs = b2a_base64 bs"

definition b64decode :: "string \<Rightarrow> error + byte list" where
  "b64decode s =
     (if \<exists>c \<in> set s. of_char c \<ge> (128::nat) then Inl ValueError else a2b_base64 s)"

subsection \<open>Library: raw bytes of an int16 array (numpy)\<close>

text \<open>
  \<open>ndarray.tobytes\<close> of an int16 array gives two bytes per sample, low byte first;
  \<open>np.frombuffer\<close> with \<open>dtype=np.int16\<close> reads them back and raises \<open>ValueError\<close>
  when the buffer size is not a multiple of the element size.
\<close>

fun tobytes :: "int16 list \<Rightarrow> byte list" where
  "tobytes [] = []"
| "tobytes (w # ws) = ucast w # ucast (drop_bit 8 w) # tobytes ws"

fun frombuffer :: "byte list \<Rightarrow> error + int16 list" where
  "frombuffer [] = Inr []"
| "frombuffer [b] = Inl ValueError"
| "frombuffer (lo # hi # bs) =
     (case frombuffer bs of
        Inl e \<Rightarrow> Inl e
      | Inr ws \<Rightarrow> Inr ((ucast lo OR push_bit 8 (ucast hi)) # ws))"

subsection \<open>Transport codec\<close>

definition encode_audio_to_base64 :: "int16 list \<Rightarrow> string" where
  "encode_audio_to_base64 audio_data =
     (let audio_bytes = tobytes audio_data in b64encode audio_bytes)"

definition decode_base64_to_audio :: "string \<Rightarrow> error + int16 list" where
  "decode_base64_to_audio base64_str =
     (case b64decode base64_str of
        Inl e \<Rightarrow> Inl e
      | Inr audio_bytes \<Rightarrow> frombuffer audio_bytes)"

subsection \<open>Library: binary floating point (IEEE 754)\<close>

text \<open>
  A finite floating-point number is the rational number it denotes. An operation computes
  the exact result and rounds it to the nearest number of the format, ties to even; a
  result beyond the largest finite number of the format overflows. Infinities, NaN and
  the sign of zero are outside the model: the sample buffers are buffers of finite
  numbers, and where Python raises at an overflow the model has an error branch.
\<close>

record fformat =
  prec :: nat
  emin :: int
  emax :: int

definition binary32 :: fformat where
  "binary32 = \<lparr>prec = 24, emin = - 126, emax = 127\<rparr>"

definition binary64 :: fformat where
  "binary64 = \<lparr>prec = 53, emin = - 1022, emax = 1023\<rparr>"

definition ilog2 :: "rat \<Rightarrow> int" where
  \<comment> \<open>the exponent \<open>e\<close> with \<open>2 powi e \<le> \<bar>q\<bar> < 2 powi (e + 1)\<close>, for \<open>q \<noteq> 0\<close>\<close>
  "ilog2 q =
     (let (a, b) = quotient_of \<bar>q\<bar>; k = bitlen a - bitlen b
      in if 2 powi k \<le> \<bar>q\<bar> then k else k - 1)"

definition round_half_even :: "rat \<Rightarrow> int" where
  "round_half_even z =
     (let f = \<lfloor>z\<rfloor>; r = z - of_int f
      in if r < 1 / 2 then f else if 1 / 2 < r then f + 1
         else if even f then f else f + 1)"

definition ulp :: "fformat \<Rightarrow> rat \<Rightarrow> rat" where
  "ulp fmt q = 2 powi (max (ilog2 q) (emin fmt) - (int (prec fmt) - 1))"

definition fround :: "fformat \<Rightarrow> rat \<Rightarrow> rat" where
  "fround fmt q =
     (if q = 0 then 0 else of_int (round_half_even (q / ulp fmt q)) * ulp fmt q)"

definition overflows :: "fformat \<Rightarrow> rat \<Rightarrow> bool" where
  "overflows fmt q = (2 powi (emax fmt + 1) \<le> \<bar>fround fmt q\<bar>)"

definition fadd :: "fformat \<Rightarrow> rat \<Rightarrow> rat \<Rightarrow> rat" where
  "fadd fmt a b = fround fmt (a + b)"

definition fsub :: "fformat \<Rightarrow> rat \<Rightarrow> rat \<Rightarrow> rat" where
  "fsub fmt a b = fround fmt (a - b)"

definition fmul :: "fformat \<Rightarrow> rat \<Rightarrow> rat \<Rightarrow> rat" where
  "fmul fmt a b = fround fmt (a * b)"

definition fdiv :: "fformat \<Rightarrow> rat \<Rightarrow> rat \<Rightarrow> rat" where
  "fdiv fmt a b = fround fmt (a / b)"

subsection \<open>Library: Python numbers\<close>

text \<open>
  \<open>a / b\<close> on Python integers is the correctly rounded quotient as a float; it raises
  \<open>ZeroDivisionError\<close> for \<open>b = 0\<close> and \<open>OverflowError\<close> when the quotient is too large
  for a float. An integer operand of a float operation is converted first, which raises
  \<open>OverflowError\<close> when it is too large. A float product that overflows is infinite,
  which is \<open>None\<close> here, and \<open>int\<close> of it raises \<open>OverflowError\<close>; \<open>int\<close> of a finite
  float truncates towards zero.
\<close>

definition py_truediv :: "int \<Rightarrow> int \<Rightarrow> error + rat" where
  "py_truediv a b =
     (if b = 0 then Inl ZeroDivisionError
      else if overflows binary64 (of_int a / of_int b) then Inl OverflowError
      else Inr (fround binary64 (of_int a / of_int b)))"

definition py_float :: "int \<Rightarrow> error + rat" where
  "py_float n =
     (if overflows binary64 (of_int n) then Inl OverflowError
      else Inr (fround binary64 (of_int n)))"

definition py_float_mul :: "rat \<Rightarrow> rat \<Rightarrow> rat option" where
  "py_float_mul a b =
     (if overflows binary64 (a * b) then None else Some (fmul binary64 a b))"

definition float_trunc :: "rat \<Rightarrow> int" where
  "float_trunc q = (if 0 \<le> q then \<lfloor>q\<rfloor> else \<lceil>q\<rceil>)"

definition py_int :: "rat option \<Rightarrow> error + int" where
  "py_int x = (case x of None \<Rightarrow> Inl OverflowError | Some q \<Rightarrow> Inr (float_trunc q))"

subsection \<open>Library: numpy arrays\<close>

text \<open>
  A one-dimensional array with its dtype, for the three dtypes the module works with.
  The elements of a \<open>Float32\<close> array are binary32 numbers: every operation that
  builds one rounds to binary32.
\<close>

datatype ndarray = Float32 "rat list" | Float64 "rat list" | Int16 "int16 list"

fun len :: "ndarray \<Rightarrow> nat" where
  "len (Float32 xs) = length xs"
| "len (Float64 xs) = length xs"
| "len (Int16 ws) = length ws"

definition np_clip :: "rat \<Rightarrow> rat \<Rightarrow> rat \<Rightarrow> rat" where
  "np_clip x a_min a_max = min (max x a_min) a_max"

text \<open>
  \<open>astype(np.int16)\<close> of a float is the C conversion: the fraction is dropped and a
  value within the 32-bit range keeps its low 16 bits. C leaves the result undefined
  beyond that range; the conversion instruction of x86-64 then gives the 32-bit pattern
  \<open>0x80000000\<close>, whose low 16 bits are 0.
\<close>

definition astype_int16 :: "rat \<Rightarrow> int16" where
  "astype_int16 q =
     (let t = float_trunc q
      in if - (2 ^ 31) \<le> t \<and> t < 2 ^ 31 then word_of_int t else 0)"

fun as_float64 :: "ndarray \<Rightarrow> rat list" where
  "as_float64 (Float32 xs) = xs"
| "as_float64 (Float64 xs) = xs"
| "as_float64 (Int16 ws) = map (\<lambda>w. of_int (sint w)) ws"

text \<open>
  \<open>np.linspace(0, stop, num)\<close> with the default \<open>endpoint=True\<close>: \<open>num\<close> positions
  \<open>i * step\<close> with \<open>step = stop / (num - 1)\<close>, the last one set to \<open>stop\<close>;
  \<open>ValueError\<close> for a negative \<open>num\<close>.
\<close>

definition np_linspace :: "int \<Rightarrow> int \<Rightarrow> error + rat list" where
  "np_linspace stop num =
     (if num < 0 then Inl ValueError
      else
        (let delta = fround binary64 (of_int stop);
             divisor = num - 1;
             y = map (\<lambda>i. fround binary64 (of_nat i)) [0 ..< nat num]
         in if 0 < divisor then
              (let step = fdiv binary64 delta (of_int divisor);
                   y' = (if step = 0
                         then map (\<lambda>v. fmul binary64 (fdiv binary64 v (of_int divisor)) delta) y
                         else map (\<lambda>v. fmul binary64 v step) y)
               in Inr (butlast y' @ [delta]))
            else Inr (map (\<lambda>v. fmul binary64 v delta) y)))"

text \<open>
  \<open>np.interp(x, xp, fp)\<close>: piecewise linear interpolation in binary64;
  \<open>ValueError\<close> when \<open>xp\<close> is empty or \<open>fp\<close> has another length. The result has
  one value for each element of \<open>x\<close>. \<open>search xp key\<close> is the index of the last
  sample point that is not above \<open>key\<close>.
\<close>

fun search :: "rat list \<Rightarrow> rat \<Rightarrow> nat" where
  "search [] key = 0"
| "search [a] key = 0"
| "search (a # b # xp) key = (if b \<le> key then Suc (search (b # xp) key) else 0)"

definition interp1 :: "rat list \<Rightarrow> rat list \<Rightarrow> rat \<Rightarrow> rat" where
  "interp1 xp fp x_val =
     (if x_val < hd xp then hd fp
      else if last xp < x_val then last fp
      else
        (let j = search xp x_val in
         if j = length xp - 1 then fp ! j
         else if xp ! j = x_val then fp ! j
         else
           (let slope = fdiv binary64 (fsub binary64 (fp ! (j + 1)) (fp ! j))
                          (fsub binary64 (xp ! (j + 1)) (xp ! j))
            in fadd binary64 (fmul binary64 slope (fsub binary64 x_val (xp ! j))) (fp ! j))))"

definition np_interp :: "rat list \<Rightarrow> rat list \<Rightarrow> rat list \<Rightarrow> error + rat list" where
  "np_interp x xp fp =
     (if xp = [] then Inl ValueError
      else if length fp \<noteq> length xp then Inl ValueError
      else Inr (map (interp1 xp fp) x))"

definition np_arange :: "nat \<Rightarrow> rat list" where
  "np_arange n = map (\<lambda>i. fround binary64 (of_nat i)) [0 ..< n]"

subsection \<open>Sample format converters\<close>

fun float32_to_int16 :: "ndarray \<Rightarrow> int16 list" where
  "float32_to_int16 (Float32 xs) =
     map (\<lambda>x. astype_int16 (fmul binary32 (np_clip x (- 1) 1) 32767)) xs"
| "float32_to_int16 (Float64 xs) =
     map (\<lambda>x. astype_int16 (fmul binary64 (np_clip x (- 1) 1) 32767)) xs"
| "float32_to_int16 (Int16 ws) =
     map (\<lambda>w. astype_int16 (fmul binary64 (np_clip (of_int (sint w)) (- 1) 1) 32767)) ws"

text \<open>
  \<open>int16_to_float32\<close> takes the int16 samples of its docstring, which is what the
  module passes to it; every such sample is a binary32 number.
\<close>

definition int16_to_float32 :: "int16 list \<Rightarrow> rat list" where
  "int16_to_float32 audio_data =
     map (\<lambda>w. fdiv binary32 (fround binary32 (of_int (sint w))) 32768) audio_data"

subsection \<open>Resampler\<close>

definition resample_audio :: "ndarray \<Rightarrow> int \<Rightarrow> int \<Rightarrow> error + ndarray" where
  "resample_audio audio_data orig_sr target_sr =
     (if orig_sr = target_sr then Inr audio_data
      else
        (case py_truediv (int (len audio_data)) orig_sr of
           Inl e \<Rightarrow> Inl e
         | Inr duration \<Rightarrow>
             (case py_float target_sr of
                Inl e \<Rightarrow> Inl e
              | Inr rate \<Rightarrow>
                  (case py_int (py_float_mul duration rate) of
                     Inl e \<Rightarrow> Inl e
                   | Inr new_length \<Rightarrow>
                       (case np_linspace (int (len audio_data) - 1) new_length of
                          Inl e \<Rightarrow> Inl e
                        | Inr indices \<Rightarrow>
                            (case np_interp indices (np_arange (len audio_data))
                                    (as_float64 audio_data) of
                               Inl e \<Rightarrow> Inl e
                             | Inr ys \<Rightarrow> Inr (Float64 ys)))))))"

subsection \<open>Format pipeline\<close>

definition convert_to_gemini_input_format :: "ndarray \<Rightarrow> int \<Rightarrow> string \<Rightarrow> error + string" where
  "convert_to_gemini_input_format audio_data current_sr input_dtype =
     (case (if current_sr \<noteq> INPUT_SAMPLE_RATE
            then resample_audio audio_data current_sr INPUT_SAMPLE_RATE
            else Inr audio_data) of
        Inl e \<Rightarrow> Inl e
      | Inr audio_data' \<Rightarrow>
          Inr (encode_audio_to_base64
                (if input_dtype = ''float32'' then float32_to_int16 audio_data'
                 else (case audio_data' of
                         Int16 ws \<Rightarrow> ws
                       | _ \<Rightarrow> map astype_int16 (as_float64 audio_data')))))"

subsection \<open>Chunker\<close>

text \<open>
  The loop over \<open>range(0, len(audio_data), chunk_size)\<close> for a positive step; the slice
  \<open>audio_data[i:i + chunk_size]\<close> is \<open>take chunk_size (drop i audio_data)\<close>. A step of
  zero makes \<open>range\<close> raise \<open>ValueError\<close>, and a negative step gives an empty range, as
  the start \<open>0\<close> is not above the stop.
\<close>

function chunks_loop :: "'a list \<Rightarrow> nat \<Rightarrow> nat \<Rightarrow> 'a list list" where
  "chunks_loop audio_data chunk_size i =
     (if i < length audio_data \<and> 0 < chunk_size
      then take chunk_size (drop i audio_data) # chunks_loop audio_data chunk_size (i + chunk_size)
      else [])"
  by pat_completeness auto
termination
  by (relation "measure (\<lambda>(audio_data, chunk_size, i). length audio_data - i)") auto

declare chunks_loop.simps [simp del]

definition create_audio_chunks :: "'a list \<Rightarrow> int \<Rightarrow> error + 'a list list" where
  "create_audio_chunks audio_data chunk_duration_ms =
     (case py_truediv (INPUT_SAMPLE_RATE * chunk_duration_ms) 1000 of
        Inl e \<Rightarrow> Inl e
      | Inr q \<Rightarrow>
          (let chunk_size = float_trunc q in
           if chunk_size = 0 then Inl ValueError
           else if chunk_size < 0 then Inr []
           else Inr (chunks_loop audio_data (nat chunk_size) 0)))"

subsection \<open>Accumulation buffer\<close>

text \<open>
  The object's fields are a record; a method that assigns to them returns the new
  record. \<open>get_all_audio\<close> returns its result together with the record it leaves behind.
\<close>

record 'a audio_buffer =
  sample_rate :: int
  buffer :: "'a list list"
  total_samples :: int

definition init :: "int \<Rightarrow> 'a audio_buffer" where
  "init sr = \<lparr>sample_rate = sr, buffer = [], total_samples = 0\<rparr>"

definition add_chunk :: "'a audio_buffer \<Rightarrow> 'a list \<Rightarrow> 'a audio_buffer" where
  "add_chunk self audio_chunk =
     self\<lparr>buffer := buffer self @ [audio_chunk],
          total_samples := total_samples self + int (length audio_chunk)\<rparr>"

definition get_duration :: "'a audio_buffer \<Rightarrow> error + rat" where
  "get_duration self = py_truediv (total_samples self) (sample_rate self)"

definition get_all_audio :: "'a audio_buffer \<Rightarrow> 'a list \<times> 'a audio_buffer" where
  "get_all_audio self = (if buffer self = [] then ([], self) else (concat (buffer self), self))"

definition clear :: "'a audio_buffer \<Rightarrow> 'a audio_buffer" where
  "clear self = self\<lparr>buffer := [], total_samples := 0\<rparr>"

definition is_empty :: "'a audio_buffer \<Rightarrow> bool" where
  "is_empty self = (length (buffer self) = 0)"

datatype 'a call = Add_chunk "'a list" | Clear

fun run_call :: "'a audio_buffer \<Rightarrow> 'a call \<Rightarrow> 'a audio_buffer" where
  "run_call self (Add_chunk audio_chunk) = add_chunk self audio_chunk"
| "run_call self Clear = clear self"

definition run_calls :: "'a audio_buffer \<Rightarrow> 'a call list \<Rightarrow> 'a audio_buffer" where
  "run_calls self calls = foldl run_call self calls"

subsection \<open>Base64 as a format (RFC 4648)\<close>

text \<open>
  What the specification calls valid base64, written from RFC 4648 and not from the code:
  groups of four alphabet characters, where only the last group may end in one or two pad
  characters. \<open>rfc4648_decode\<close> is the decoding of such a string, group by group.
\<close>

definition sextet :: "char \<Rightarrow> byte" where
  "sextet c = (case b64_value c of Some v \<Rightarrow> v | None \<Rightarrow> 0)"

definition is_b64 :: "char \<Rightarrow> bool" where
  "is_b64 c = (b64_value c \<noteq> None)"



section \<open>Properties\<close>

subsection \<open>The base64 alphabet\<close>

lemma index_of_nth:
  "distinct xs \<Longrightarrow> i < length xs \<Longrightarrow> index_of xs (xs ! i) k = Some (k + i)"
proof (induction xs arbitrary: i k)
  case Nil then show ?case by simp
next
  case (Cons x xs)
  show ?case
  proof (cases i)
    case 0 then show ?thesis by simp
  next
    case (Suc j)
    with Cons.prems have "xs ! j \<in> set xs" "x \<notin> set xs" by auto
    then have "x \<noteq> xs ! j" by auto
    with Cons Suc show ?thesis by simp
  qed
qed

lemma distinct_b64_alphabet: "distinct b64_alphabet"
  by (simp add: b64_alphabet_def)

lemma length_b64_alphabet: "length b64_alphabet = 64"
  by (simp add: b64_alphabet_def)

lemma b64_value_char: "v < 64 \<Longrightarrow> b64_value (b64_char v) = Some v"
  unfolding b64_value_def b64_char_def
  by (subst index_of_nth) (simp_all add: distinct_b64_alphabet length_b64_alphabet word_less_nat_alt)

lemma byte_masks: "(3::byte) = mask 2" "(15::byte) = mask 4" "(63::byte) = mask 6"
  by (simp_all add: mask_eq_exp_minus_1)

lemma lt64_iff: "(x::byte) < 64 \<longleftrightarrow> x AND mask 6 = x"
  using mask_eq_iff_w2p [of 6 x] by (simp add: word_size)

lemma bit_shift_arith: "2 \<le> n \<Longrightarrow> Suc (Suc (n - 2)) = n" "4 \<le> n \<Longrightarrow> 4 + (n - 4) = n" "6 \<le> n \<Longrightarrow> 6 + (n - 6) = n"
  by simp_all

lemma sextet1: "drop_bit 2 (a::byte) < 64"
  unfolding lt64_iff byte_masks by (rule bit_word_eqI) (auto simp: bit_simps bit_shift_arith dest: bit_imp_le_length)

lemma sextet2: "push_bit 4 ((a::byte) AND 3) OR drop_bit 4 (b::byte) < 64"
  unfolding lt64_iff byte_masks by (rule bit_word_eqI) (auto simp: bit_simps bit_shift_arith dest: bit_imp_le_length)

lemma sextet3: "push_bit 2 ((b::byte) AND 15) OR drop_bit 6 (c::byte) < 64"
  unfolding lt64_iff byte_masks by (rule bit_word_eqI) (auto simp: bit_simps bit_shift_arith dest: bit_imp_le_length)

lemma sextet4: "(c::byte) AND 63 < 64"
  unfolding lt64_iff byte_masks by (rule bit_word_eqI) (auto simp: bit_simps bit_shift_arith dest: bit_imp_le_length)

lemma sextet2': "push_bit 4 ((a::byte) AND 3) < 64"
  unfolding lt64_iff byte_masks by (rule bit_word_eqI) (auto simp: bit_simps bit_shift_arith dest: bit_imp_le_length)

lemma sextet3': "push_bit 2 ((b::byte) AND 15) < 64"
  unfolding lt64_iff byte_masks by (rule bit_word_eqI) (auto simp: bit_simps bit_shift_arith dest: bit_imp_le_length)

lemma join1: "push_bit 2 (drop_bit 2 (a::byte)) OR drop_bit 4 (push_bit 4 (a AND 3) OR drop_bit 4 (b::byte)) = a"
  unfolding byte_masks
proof (rule bit_word_eqI)
  fix n assume "n < LENGTH(8)"
  then show "bit (push_bit 2 (drop_bit 2 (a::byte)) OR drop_bit 4 (push_bit 4 (a AND mask 2) OR drop_bit 4 (b::byte))) n = bit a n"
    by (cases "n < 2"; cases "n < 4"; cases "n < 6") (auto simp: bit_simps bit_shift_arith dest: bit_imp_le_length)
qed

lemma join1': "push_bit 2 (drop_bit 2 (a::byte)) OR drop_bit 4 (push_bit 4 (a AND 3)) = a"
  unfolding byte_masks
proof (rule bit_word_eqI)
  fix n assume "n < LENGTH(8)"
  then show "bit (push_bit 2 (drop_bit 2 (a::byte)) OR drop_bit 4 (push_bit 4 (a AND mask 2))) n = bit a n"
    by (cases "n < 2"; cases "n < 4"; cases "n < 6") (auto simp: bit_simps bit_shift_arith dest: bit_imp_le_length)
qed

lemma join2: "push_bit 4 ((push_bit 4 ((a::byte) AND 3) OR drop_bit 4 (b::byte)) AND 15) OR drop_bit 2 (push_bit 2 (b AND 15) OR drop_bit 6 (c::byte)) = b"
  unfolding byte_masks
proof (rule bit_word_eqI)
  fix n assume "n < LENGTH(8)"
  then show "bit (push_bit 4 ((push_bit 4 ((a::byte) AND mask 2) OR drop_bit 4 (b::byte)) AND mask 4) OR drop_bit 2 (push_bit 2 (b AND mask 4) OR drop_bit 6 (c::byte))) n = bit b n"
    by (cases "n < 2"; cases "n < 4"; cases "n < 6") (auto simp: bit_simps bit_shift_arith dest: bit_imp_le_length)
qed

lemma join2': "push_bit 4 ((push_bit 4 ((a::byte) AND 3) OR drop_bit 4 (b::byte)) AND 15) OR drop_bit 2 (push_bit 2 (b AND 15)) = b"
  unfolding byte_masks
proof (rule bit_word_eqI)
  fix n assume "n < LENGTH(8)"
  then show "bit (push_bit 4 ((push_bit 4 ((a::byte) AND mask 2) OR drop_bit 4 (b::byte)) AND mask 4) OR drop_bit 2 (push_bit 2 (b AND mask 4))) n = bit b n"
    by (cases "n < 2"; cases "n < 4"; cases "n < 6") (auto simp: bit_simps bit_shift_arith dest: bit_imp_le_length)
qed

lemma join3: "push_bit 6 ((push_bit 2 ((b::byte) AND 15) OR drop_bit 6 (c::byte)) AND 3) OR (c AND 63) = c"
  unfolding byte_masks
proof (rule bit_word_eqI)
  fix n assume "n < LENGTH(8)"
  then show "bit (push_bit 6 ((push_bit 2 ((b::byte) AND mask 4) OR drop_bit 6 (c::byte)) AND mask 2) OR (c AND mask 6)) n = bit c n"
    by (cases "n < 2"; cases "n < 4"; cases "n < 6") (auto simp: bit_simps bit_shift_arith dest: bit_imp_le_length)
qed

lemma int16_join: "ucast (ucast (w::int16) :: byte) OR push_bit 8 (ucast (ucast (drop_bit 8 w) :: byte)) = w"
  by (rule bit_word_eqI) (auto simp: bit_simps dest: bit_imp_le_length)

lemma b64_value_pad: "b64_value (CHR ''='') = None"
  by (simp add: b64_value_def b64_alphabet_def)

lemma is_b64_D: "is_b64 c \<Longrightarrow> b64_value c = Some (sextet c) \<and> c \<noteq> CHR ''=''"
  using b64_value_pad by (auto simp: is_b64_def sextet_def)

lemma a2b_data_char:
  "is_b64 c \<Longrightarrow> a2b_loop qp lc pads (c # rest) =
     (if qp = 0 then a2b_loop 1 (sextet c) 0 rest
      else if qp = 1 then emit (push_bit 2 lc OR drop_bit 4 (sextet c)) (a2b_loop 2 (sextet c AND 15) 0 rest)
      else if qp = 2 then emit (push_bit 4 lc OR drop_bit 2 (sextet c)) (a2b_loop 3 (sextet c AND 3) 0 rest)
      else emit (push_bit 6 lc OR sextet c) (a2b_loop 0 0 0 rest))"
  by (simp add: is_b64_D)

lemma a2b_quad:
  assumes "is_b64 c1" "is_b64 c2" "is_b64 c3" "is_b64 c4"
  shows "a2b_loop 0 lc 0 (c1 # c2 # c3 # c4 # rest) =
     emit (push_bit 2 (sextet c1) OR drop_bit 4 (sextet c2))
       (emit (push_bit 4 (sextet c2 AND 15) OR drop_bit 2 (sextet c3))
         (emit (push_bit 6 (sextet c3 AND 3) OR sextet c4) (a2b_loop 0 0 0 rest)))"
  by (simp only: a2b_data_char [OF assms(1)] a2b_data_char [OF assms(2)]
        a2b_data_char [OF assms(3)] a2b_data_char [OF assms(4)]) simp

lemma a2b_pad1:
  assumes "is_b64 c1" "is_b64 c2" "is_b64 c3"
  shows "a2b_loop 0 lc 0 (c1 # c2 # c3 # CHR ''='' # rest) =
     Inr [push_bit 2 (sextet c1) OR drop_bit 4 (sextet c2),
          push_bit 4 (sextet c2 AND 15) OR drop_bit 2 (sextet c3)]"
  by (simp only: a2b_data_char [OF assms(1)] a2b_data_char [OF assms(2)]
        a2b_data_char [OF assms(3)]) (simp add: emit_def)

lemma a2b_pad2:
  assumes "is_b64 c1" "is_b64 c2"
  shows "a2b_loop 0 lc 0 (c1 # c2 # CHR ''='' # CHR ''='' # rest) =
     Inr [push_bit 2 (sextet c1) OR drop_bit 4 (sextet c2)]"
  by (simp only: a2b_data_char [OF assms(1)] a2b_data_char [OF assms(2)]) (simp add: emit_def)


lemma is_b64_char: "v < 64 \<Longrightarrow> is_b64 (b64_char v)" "v < 64 \<Longrightarrow> sextet (b64_char v) = v"
  by (simp_all add: is_b64_def sextet_def b64_value_char)

lemma a2b_b2a: "a2b_loop 0 0 0 (b2a_base64 bs) = Inr bs"
proof (induction bs rule: b2a_base64.induct)
  case 1 show ?case by simp
next
  case (2 a)
  have "a2b_loop 0 0 0 (b2a_base64 [a]) =
      Inr [push_bit 2 (drop_bit 2 a) OR drop_bit 4 (push_bit 4 (a AND 3))]"
    unfolding b2a_base64.simps
    by (simp only: a2b_pad2 [OF is_b64_char(1) [OF sextet1] is_b64_char(1) [OF sextet2']]
          is_b64_char(2) [OF sextet1] is_b64_char(2) [OF sextet2'])
  then show ?case by (simp only: join1')
next
  case (3 a b)
  have "a2b_loop 0 0 0 (b2a_base64 [a, b]) =
      Inr [push_bit 2 (drop_bit 2 a) OR drop_bit 4 (push_bit 4 (a AND 3) OR drop_bit 4 b),
           push_bit 4 ((push_bit 4 (a AND 3) OR drop_bit 4 b) AND 15)
             OR drop_bit 2 (push_bit 2 (b AND 15))]"
    unfolding b2a_base64.simps
    by (simp only: a2b_pad1 [OF is_b64_char(1) [OF sextet1] is_b64_char(1) [OF sextet2]
            is_b64_char(1) [OF sextet3']]
          is_b64_char(2) [OF sextet1] is_b64_char(2) [OF sextet2] is_b64_char(2) [OF sextet3'])
  then show ?case by (simp only: join1 join2')
next
  case (4 a b c rest)
  have "a2b_loop 0 0 0 (b2a_base64 (a # b # c # rest)) =
      emit (push_bit 2 (drop_bit 2 a) OR drop_bit 4 (push_bit 4 (a AND 3) OR drop_bit 4 b))
       (emit (push_bit 4 ((push_bit 4 (a AND 3) OR drop_bit 4 b) AND 15)
                OR drop_bit 2 (push_bit 2 (b AND 15) OR drop_bit 6 c))
         (emit (push_bit 6 ((push_bit 2 (b AND 15) OR drop_bit 6 c) AND 3) OR (c AND 63))
            (a2b_loop 0 0 0 (b2a_base64 rest))))"
    unfolding b2a_base64.simps append_Cons append_Nil
    by (simp only: a2b_quad [OF is_b64_char(1) [OF sextet1] is_b64_char(1) [OF sextet2]
            is_b64_char(1) [OF sextet3] is_b64_char(1) [OF sextet4]]
          is_b64_char(2) [OF sextet1] is_b64_char(2) [OF sextet2] is_b64_char(2) [OF sextet3]
          is_b64_char(2) [OF sextet4])
  then show ?case by (simp only: join1 join2 join3 "4.IH") (simp add: emit_def)
qed

lemma frombuffer_tobytes: "frombuffer (tobytes ws) = Inr ws"
  by (induction ws) (simp_all add: int16_join)




lemma alphabet_ascii: "c \<in> set b64_alphabet \<Longrightarrow> of_char c < (128::nat)"
  by (auto simp: b64_alphabet_def)

lemma index_of_Some: "index_of xs c k = Some i \<Longrightarrow> c \<in> set xs"
  by (induction xs arbitrary: k) (auto split: if_splits)

lemma is_b64_ascii: "is_b64 c \<Longrightarrow> of_char c < (128::nat)"
  by (auto simp: is_b64_def b64_value_def intro: alphabet_ascii index_of_Some)



lemma b2a_chars: "c \<in> set (b2a_base64 bs) \<Longrightarrow> of_char c < (128::nat)"
proof (induction bs rule: b2a_base64.induct)
  case 1 then show ?case by simp
next
  case (2 a)
  then show ?case
    using is_b64_ascii [OF is_b64_char(1) [OF sextet1], of a]
      is_b64_ascii [OF is_b64_char(1) [OF sextet2'], of a] by auto
next
  case (3 a b)
  then show ?case
    using is_b64_ascii [OF is_b64_char(1) [OF sextet1], of a]
      is_b64_ascii [OF is_b64_char(1) [OF sextet2], of a b]
      is_b64_ascii [OF is_b64_char(1) [OF sextet3'], of b] by auto
next
  case (4 a b c' rest)
  then show ?case
    using is_b64_ascii [OF is_b64_char(1) [OF sextet1], of a]
      is_b64_ascii [OF is_b64_char(1) [OF sextet2], of a b]
      is_b64_ascii [OF is_b64_char(1) [OF sextet3], of b c']
      is_b64_ascii [OF is_b64_char(1) [OF sextet4], of c'] by auto
qed

lemma b64decode_b64encode: "b64decode (b64encode bs) = Inr bs"
  using b2a_chars [of _ bs] by (auto simp: b64decode_def b64encode_def a2b_base64_def a2b_b2a not_le)

subsection \<open>Transport codec: round trip and decoding errors\<close>

text \<open>
  Claim C5. For every buffer \<open>buf\<close> of 16-bit samples, decoding the encoding of
  \<open>buf\<close> succeeds and gives back \<open>buf\<close>, element for element.
\<close>

theorem decode_encode_roundtrip:
  "decode_base64_to_audio (encode_audio_to_base64 buf) = Inr buf"
  by (simp add: decode_base64_to_audio_def encode_audio_to_base64_def b64decode_b64encode
      frombuffer_tobytes)




subsection \<open>Rounding\<close>

lemma rhe_of_int: "round_half_even (of_int n) = n"
  by (simp add: round_half_even_def)

lemma rhe_cases: "round_half_even z = \<lfloor>z\<rfloor> \<or> round_half_even z = \<lfloor>z\<rfloor> + 1"
  by (simp add: round_half_even_def Let_def)

lemma rhe_bounds: "of_int (round_half_even z) \<le> z + 1 / 2" "z - 1 / 2 \<le> of_int (round_half_even z)"
  unfolding round_half_even_def Let_def by (auto; linarith)+

lemma rhe_ge: "of_int n \<le> z \<Longrightarrow> n \<le> round_half_even z"
proof -
  assume "of_int n \<le> z"
  then have "n \<le> \<lfloor>z\<rfloor>" by (simp add: le_floor_iff)
  then show ?thesis using rhe_cases [of z] by auto
qed

lemma rhe_le: "z \<le> of_int n \<Longrightarrow> round_half_even z \<le> n"
proof -
  assume a: "z \<le> of_int n"
  then have f: "\<lfloor>z\<rfloor> \<le> n" by (metis floor_mono floor_of_int)
  show ?thesis
  proof (cases "\<lfloor>z\<rfloor> = n")
    case True
    then have "of_int n \<le> z" by (metis of_int_floor_le)
    with a have "z = of_int n" by simp
    then show ?thesis by (simp add: rhe_of_int)
  next
    case False
    with f have "\<lfloor>z\<rfloor> + 1 \<le> n" by simp
    then show ?thesis using rhe_cases [of z] by auto
  qed
qed

lemma rhe_mono: "a \<le> b \<Longrightarrow> round_half_even a \<le> round_half_even b"
proof -
  assume ab: "a \<le> b"
  then have f: "\<lfloor>a\<rfloor> \<le> \<lfloor>b\<rfloor>" by (rule floor_mono)
  show ?thesis
  proof (cases "\<lfloor>a\<rfloor> = \<lfloor>b\<rfloor>")
    case True
    with ab show ?thesis unfolding round_half_even_def Let_def by auto
  next
    case False
    with f have "\<lfloor>a\<rfloor> + 1 \<le> \<lfloor>b\<rfloor>" by simp
    then show ?thesis using rhe_cases [of a] rhe_cases [of b] by auto
  qed
qed

lemma rhe_minus: "round_half_even (- z) = - round_half_even z"
proof (cases "z = of_int \<lfloor>z\<rfloor>")
  case True
  then obtain n where "z = of_int n" ..
  then have "- z = of_int (- n)" by simp
  then show ?thesis using rhe_of_int \<open>z = of_int n\<close> by metis
next
  case False
  then have c: "\<lceil>z\<rceil> = \<lfloor>z\<rfloor> + 1" by (metis ceiling_altdef)
  have fl: "\<lfloor>- z\<rfloor> = - \<lfloor>z\<rfloor> - 1" using c by (simp add: floor_minus)
  have lt: "of_int \<lfloor>z\<rfloor> < z" using False by (metis of_int_floor_le order.not_eq_order_implies_strict)
  show ?thesis
    unfolding round_half_even_def Let_def fl using lt
    by (auto simp: field_simps)
qed

lemma two_powi_pos: "0 < (2::rat) powi k"
  by simp

lemma two_powi_add: "(2::rat) powi (a + b) = 2 powi a * 2 powi b"
  by (simp add: power_int_add)

lemma two_powi_le: "a \<le> b \<Longrightarrow> (2::rat) powi a \<le> 2 powi b"
  by (rule power_int_increasing) simp_all

lemma two_powi_less: "a < b \<Longrightarrow> (2::rat) powi a < 2 powi b"
  by (rule power_int_strict_increasing) simp_all

lemma two_powi_less_D: "(2::rat) powi a < 2 powi b \<Longrightarrow> a < b"
  using two_powi_le [of b a] by (cases "a < b") auto

lemma bitlen_bounds_rat:
  assumes "0 < a"
  shows "(2::rat) powi (bitlen a - 1) \<le> of_int a" "of_int a < (2::rat) powi bitlen a"
proof -
  from assms have b1: "1 \<le> bitlen a" by (auto simp: bitlen_alt_def)
  from bitlen_bounds [OF assms] have "2 ^ nat (bitlen a - 1) \<le> a" "a < 2 ^ nat (bitlen a)" by auto
  then have "(of_int (2 ^ nat (bitlen a - 1)) :: rat) \<le> of_int a" "(of_int a :: rat) < of_int (2 ^ nat (bitlen a))"
    by (simp_all only: of_int_le_iff of_int_less_iff)
  then show "(2::rat) powi (bitlen a - 1) \<le> of_int a" "of_int a < (2::rat) powi bitlen a"
    using b1 by (simp_all add: power_int_def)
qed

lemma ilog2_bounds:
  assumes "q \<noteq> 0"
  shows "2 powi (ilog2 q) \<le> \<bar>q\<bar>" "\<bar>q\<bar> < 2 powi (ilog2 q + 1)"
proof -
  obtain a b where ab: "quotient_of \<bar>q\<bar> = (a, b)" by (cases "quotient_of \<bar>q\<bar>")
  then have b: "0 < b" by (rule quotient_of_denom_pos)
  have q: "\<bar>q\<bar> = of_int a / of_int b" using ab by (rule quotient_of_div)
  have "0 < \<bar>q\<bar>" using assms by simp
  with q b have a: "0 < a" by (simp add: zero_less_divide_iff)
  define k where "k = bitlen a - bitlen b"
  have il: "ilog2 q = (if 2 powi k \<le> \<bar>q\<bar> then k else k - 1)"
    by (simp add: ilog2_def ab k_def Let_def)
  have bpos: "(0::rat) < of_int b" using b by simp
  have up: "\<bar>q\<bar> < 2 powi (k + 1)"
  proof -
    have "of_int a < (2::rat) powi bitlen a" by (rule bitlen_bounds_rat [OF a])
    also have "\<dots> = 2 powi (k + 1) * 2 powi (bitlen b - 1)"
      by (simp add: k_def flip: two_powi_add)
    also have "\<dots> \<le> 2 powi (k + 1) * of_int b"
      by (rule mult_left_mono [OF bitlen_bounds_rat(1) [OF b]]) simp
    finally show ?thesis using bpos by (simp add: q pos_divide_less_eq)
  qed
  have lo: "2 powi (k - 1) \<le> \<bar>q\<bar>"
  proof -
    have "2 powi (k - 1) * of_int b \<le> 2 powi (k - 1) * (2::rat) powi bitlen b"
      by (rule mult_left_mono [OF less_imp_le [OF bitlen_bounds_rat(2) [OF b]]]) simp
    also have "\<dots> = 2 powi (bitlen a - 1)"
      by (simp add: k_def flip: two_powi_add)
    also have "\<dots> \<le> of_int a" by (rule bitlen_bounds_rat [OF a])
    finally show ?thesis using bpos by (simp add: q pos_le_divide_eq)
  qed
  show "2 powi (ilog2 q) \<le> \<bar>q\<bar>" using lo by (simp add: il)
  show "\<bar>q\<bar> < 2 powi (ilog2 q + 1)" using up by (auto simp: il not_le)
qed

lemma ilog2_unique:
  assumes "2 powi e \<le> \<bar>q\<bar>" "\<bar>q\<bar> < 2 powi (e + 1)"
  shows "ilog2 q = e"
proof -
  have "0 < \<bar>q\<bar>" by (rule less_le_trans [OF two_powi_pos assms(1)])
  then have q: "q \<noteq> 0" by simp
  have "(2::rat) powi e < 2 powi (ilog2 q + 1)"
    using assms(1) ilog2_bounds(2) [OF q] by simp
  then have 1: "e < ilog2 q + 1" by (rule two_powi_less_D)
  have "(2::rat) powi (ilog2 q) < 2 powi (e + 1)"
    using assms(2) ilog2_bounds(1) [OF q] by simp
  then have "ilog2 q < e + 1" by (rule two_powi_less_D)
  with 1 show ?thesis by simp
qed

lemma ilog2_minus: "ilog2 (- q) = ilog2 q"
  by (simp add: ilog2_def)

lemma ilog2_mono: 
  assumes "q1 \<noteq> 0" "\<bar>q1\<bar> \<le> \<bar>q2\<bar>" shows "ilog2 q1 \<le> ilog2 q2"
proof -
  have q2: "q2 \<noteq> 0" using assms by auto
  have "(2::rat) powi (ilog2 q1) < 2 powi (ilog2 q2 + 1)"
    using ilog2_bounds(1) [OF assms(1)] ilog2_bounds(2) [OF q2] assms(2) by simp
  then have "ilog2 q1 < ilog2 q2 + 1" by (rule two_powi_less_D)
  then show ?thesis by simp
qed

lemma ulp_pos: "0 < ulp fmt q"
  by (simp add: ulp_def)

lemma ulp_minus: "ulp fmt (- q) = ulp fmt q"
  by (simp add: ulp_def ilog2_minus)

lemma fround_0: "fround fmt 0 = 0"
  by (simp add: fround_def)

lemma fround_minus: "fround fmt (- q) = - fround fmt q"
  by (simp add: fround_def ulp_minus rhe_minus)

lemma fround_nonneg: "0 \<le> q \<Longrightarrow> 0 \<le> fround fmt q"
proof -
  assume "0 \<le> q"
  then have "of_int 0 \<le> q / ulp fmt q" using ulp_pos [of fmt q] by simp
  then have "0 \<le> round_half_even (q / ulp fmt q)" by (rule rhe_ge)
  then show ?thesis using ulp_pos [of fmt q] by (simp add: fround_def)
qed

lemma fround_grid_ge:
  assumes "q \<noteq> 0" "g = of_int n * ulp fmt q" "g \<le> q"
  shows "g \<le> fround fmt q"
proof -
  have "of_int n \<le> q / ulp fmt q"
    using assms(2,3) ulp_pos [of fmt q] by (simp add: pos_le_divide_eq)
  then have "n \<le> round_half_even (q / ulp fmt q)" by (rule rhe_ge)
  then have "(of_int n :: rat) \<le> of_int (round_half_even (q / ulp fmt q))" by simp
  then show ?thesis
    using assms(1,2) ulp_pos [of fmt q] by (simp add: fround_def)
qed

lemma fround_grid_le:
  assumes "q \<noteq> 0" "g = of_int n * ulp fmt q" "q \<le> g"
  shows "fround fmt q \<le> g"
proof -
  have "q / ulp fmt q \<le> of_int n"
    using assms(2,3) ulp_pos [of fmt q] by (simp add: pos_divide_le_eq)
  then have "round_half_even (q / ulp fmt q) \<le> n" by (rule rhe_le)
  then have "(of_int (round_half_even (q / ulp fmt q)) :: rat) \<le> of_int n" by simp
  then show ?thesis
    using assms(1,2) ulp_pos [of fmt q] by (simp add: fround_def)
qed

lemma two_powi_of_int: "0 \<le> k \<Longrightarrow> (2::rat) powi k = of_int (2 ^ nat k)"
  by (simp add: power_int_def)

lemma on_grid:
  assumes "j \<le> k"
  shows "\<exists>n. of_int m * (2::rat) powi k = of_int n * 2 powi j"
proof -
  have "(2::rat) powi k = 2 powi (k - j) * 2 powi j" by (simp flip: two_powi_add)
  also have "(2::rat) powi (k - j) = of_int (2 ^ nat (k - j))" using assms by (simp add: two_powi_of_int)
  finally have "of_int m * (2::rat) powi k = of_int (m * 2 ^ nat (k - j)) * 2 powi j" by simp
  then show ?thesis ..
qed

lemma fround_representable:
  assumes "q = of_int m * 2 powi k" "\<bar>m\<bar> < 2 ^ prec fmt" "emin fmt - (int (prec fmt) - 1) \<le> k"
  shows "fround fmt q = q"
proof (cases "q = 0")
  case True then show ?thesis by (simp add: fround_0)
next
  case False
  have "\<bar>q\<bar> = of_int \<bar>m\<bar> * 2 powi k" by (simp add: assms(1) abs_mult)
  also have "\<dots> < of_int (2 ^ prec fmt) * 2 powi k"
    using assms(2) by (simp only: mult_less_cancel_right_pos two_powi_pos of_int_less_iff)
  also have "\<dots> = 2 powi (int (prec fmt) + k)" by (simp add: two_powi_add)
  finally have "(2::rat) powi ilog2 q < 2 powi (int (prec fmt) + k)"
    using ilog2_bounds(1) [OF False] by simp
  then have "ilog2 q < int (prec fmt) + k" by (rule two_powi_less_D)
  with assms(3) have "max (ilog2 q) (emin fmt) - (int (prec fmt) - 1) \<le> k" by simp
  from on_grid [OF this, of m] obtain n where "q = of_int n * ulp fmt q"
    by (auto simp: assms(1) ulp_def)
  then have "q / ulp fmt q = of_int n" using ulp_pos [of fmt q] by (simp add: field_simps)
  then have "round_half_even (q / ulp fmt q) = n" by (simp add: rhe_of_int)
  then show ?thesis using False \<open>q = of_int n * ulp fmt q\<close> by (simp add: fround_def)
qed

lemma fround_of_int:
  assumes "\<bar>m\<bar> < 2 ^ prec fmt" "emin fmt \<le> int (prec fmt) - 1"
  shows "fround fmt (of_int m) = of_int m"
  by (rule fround_representable [where m = m and k = 0]) (use assms in simp_all)

lemma fround_upper:
  assumes "0 < q"
  shows "fround fmt q \<le> 2 powi (max (ilog2 q) (emin fmt) + 1)"
proof -
  let ?E = "max (ilog2 q) (emin fmt)"
  have q: "q \<noteq> 0" using assms by simp
  have "(2::rat) powi (?E + 1) = 2 powi (int (prec fmt)) * 2 powi (?E - (int (prec fmt) - 1))"
    by (subst two_powi_add [symmetric]) simp
  then have g: "(2::rat) powi (?E + 1) = of_int (2 ^ prec fmt) * ulp fmt q"
    by (simp add: ulp_def)
  have "q < 2 powi (ilog2 q + 1)" using ilog2_bounds(2) [OF q] assms by simp
  also have "\<dots> \<le> 2 powi (?E + 1)" by (rule two_powi_le) simp
  finally show ?thesis using fround_grid_le [OF q g] by simp
qed

lemma fround_lower:
  assumes "0 < q" "emin fmt \<le> ilog2 q" "0 < prec fmt"
  shows "2 powi (ilog2 q) \<le> fround fmt q"
proof -
  have q: "q \<noteq> 0" using assms by simp
  have p: "(2::rat) powi (int (prec fmt) - 1) = of_int (2 ^ (prec fmt - 1))"
    using assms(3) by (simp add: two_powi_of_int nat_diff_distrib)
  have "(2::rat) powi (ilog2 q) = 2 powi (int (prec fmt) - 1) * 2 powi (ilog2 q - (int (prec fmt) - 1))"
    by (subst two_powi_add [symmetric]) simp
  then have g: "(2::rat) powi (ilog2 q) = of_int (2 ^ (prec fmt - 1)) * ulp fmt q"
    using assms(2) by (simp only: p ulp_def max_absorb1)
  have "2 powi (ilog2 q) \<le> q" using ilog2_bounds(1) [OF q] assms by simp
  then show ?thesis using fround_grid_ge [OF q g] by simp
qed

lemma fround_mono_pos:
  assumes "0 < q1" "q1 \<le> q2" "0 < prec fmt"
  shows "fround fmt q1 \<le> fround fmt q2"
proof -
  let ?E1 = "max (ilog2 q1) (emin fmt)" and ?E2 = "max (ilog2 q2) (emin fmt)"
  have q: "q1 \<noteq> 0" "q2 \<noteq> 0" "0 < q2" using assms by simp_all
  have "ilog2 q1 \<le> ilog2 q2" by (rule ilog2_mono) (use assms in simp_all)
  then have E: "?E1 \<le> ?E2" by simp
  show ?thesis
  proof (cases "?E1 = ?E2")
    case True
    then have u: "ulp fmt q1 = ulp fmt q2" by (simp add: ulp_def)
    have "q1 / ulp fmt q2 \<le> q2 / ulp fmt q2"
      using assms(2) ulp_pos [of fmt q2] by (simp add: divide_right_mono)
    then have "round_half_even (q1 / ulp fmt q2) \<le> round_half_even (q2 / ulp fmt q2)"
      by (rule rhe_mono)
    then have "(of_int (round_half_even (q1 / ulp fmt q2)) :: rat)
        \<le> of_int (round_half_even (q2 / ulp fmt q2))" by simp
    then show ?thesis using q ulp_pos [of fmt q2] by (simp add: fround_def u)
  next
    case False
    with E have lt: "?E1 < ?E2" by linarith
    have e2: "emin fmt \<le> ilog2 q2" using lt by linarith
    have e1: "?E1 + 1 \<le> ilog2 q2" using lt by linarith
    have "fround fmt q1 \<le> 2 powi (?E1 + 1)" by (rule fround_upper [OF assms(1)])
    also have "\<dots> \<le> 2 powi (ilog2 q2)" by (rule two_powi_le [OF e1])
    also have "\<dots> \<le> fround fmt q2" by (rule fround_lower [OF q(3) e2 assms(3)])
    finally show ?thesis .
  qed
qed

lemma fround_mono:
  assumes "q1 \<le> q2" "0 < prec fmt"
  shows "fround fmt q1 \<le> fround fmt q2"
proof -
  consider "0 < q1" | "q1 \<le> 0" "0 \<le> q2" | "q2 < 0" by linarith
  then show ?thesis
  proof cases
    case 1
    then show ?thesis using assms by (intro fround_mono_pos)
  next
    case 2
    have "fround fmt q1 \<le> 0" using fround_nonneg [of "- q1" fmt] 2(1) by (simp add: fround_minus)
    also have "0 \<le> fround fmt q2" using 2(2) by (rule fround_nonneg)
    finally show ?thesis .
  next
    case 3
    then have "fround fmt (- q2) \<le> fround fmt (- q1)"
      using assms by (intro fround_mono_pos) simp_all
    then show ?thesis by (simp add: fround_minus)
  qed
qed


subsection \<open>Chunker\<close>

lemma concat_chunks_loop: "0 < n \<Longrightarrow> concat (chunks_loop xs n i) = drop i xs"
proof (induction xs n i rule: chunks_loop.induct)
  case (1 xs n i)
  show ?case
  proof (cases "i < length xs")
    case True
    with 1 have "concat (chunks_loop xs n (i + n)) = drop (i + n) xs" by simp
    then have "concat (chunks_loop xs n i) = take n (drop i xs) @ drop n (drop i xs)"
      using True 1(2) by (subst chunks_loop.simps) (simp add: add.commute)
    then show ?thesis by (simp only: append_take_drop_id)
  next
    case False
    then show ?thesis by (subst chunks_loop.simps) simp
  qed
qed

lemma chunks_loop_Nil_iff: "chunks_loop xs n i = [] \<longleftrightarrow> \<not> (i < length xs \<and> 0 < n)"
  by (subst chunks_loop.simps) simp

lemma length_chunks_loop:
  "Suc k < length (chunks_loop xs n i) \<Longrightarrow> length (chunks_loop xs n i ! k) = n"
proof (induction xs n i arbitrary: k rule: chunks_loop.induct)
  case (1 xs n i)
  show ?case
  proof (cases "i < length xs \<and> 0 < n")
    case True
    then have eq: "chunks_loop xs n i = take n (drop i xs) # chunks_loop xs n (i + n)"
      by (subst chunks_loop.simps) simp
    show ?thesis
    proof (cases k)
      case 0
      with "1.prems" eq have "chunks_loop xs n (i + n) \<noteq> []" by auto
      then have "i + n < length xs" by (simp add: chunks_loop_Nil_iff)
      then show ?thesis using 0 eq by simp
    next
      case (Suc j)
      with "1.prems" eq have "Suc j < length (chunks_loop xs n (i + n))" by simp
      with True have "length (chunks_loop xs n (i + n) ! j) = n" by (rule "1.IH")
      then show ?thesis using Suc eq by simp
    qed
  next
    case False
    then have "chunks_loop xs n i = []" by (simp add: chunks_loop_Nil_iff)
    with "1.prems" show ?thesis by simp
  qed
qed

lemma float_trunc_of_int: "float_trunc (of_int n) = n"
  by (simp add: float_trunc_def)

lemma binary64_simps: "prec binary64 = 53" "emin binary64 = - 1022" "emax binary64 = 1023"
  by (simp_all add: binary64_def)

lemma binary32_simps: "prec binary32 = 24" "emin binary32 = - 126" "emax binary32 = 127"
  by (simp_all add: binary32_def)

lemma fround64_scaled:
  assumes "\<bar>m\<bar> < 2 ^ 53" "- 1074 \<le> k"
  shows "fround binary64 (of_int m * 2 powi k) = of_int m * 2 powi k"
  by (rule fround_representable [OF refl]) (use assms in \<open>simp_all add: binary64_simps\<close>)

lemma not_overflows:
  assumes "\<bar>q\<bar> \<le> 2 powi (emax fmt)" "0 < prec fmt" "emin fmt \<le> emax fmt"
  shows "\<not> overflows fmt q"
proof -
  have r: "fround fmt (2 powi (emax fmt)) = 2 powi (emax fmt)"
    by (rule fround_representable [where m = 1 and k = "emax fmt"]) (use assms in simp_all)
  have "fround fmt q \<le> fround fmt (2 powi (emax fmt))"
    by (rule fround_mono) (use assms in simp_all)
  moreover have "fround fmt (- (2 powi (emax fmt))) \<le> fround fmt q"
    by (rule fround_mono) (use assms in simp_all)
  ultimately have "\<bar>fround fmt q\<bar> \<le> 2 powi (emax fmt)" by (simp add: r fround_minus abs_le_iff)
  also have "\<dots> < 2 powi (emax fmt + 1)" by (rule two_powi_less) simp
  finally show ?thesis by (simp add: overflows_def)
qed

lemma not_overflows64: "\<bar>q\<bar> \<le> 2 powi 1023 \<Longrightarrow> \<not> overflows binary64 q"
  using not_overflows [of q binary64] by (simp add: binary64_simps)

lemma chunk_quotient:
  assumes "\<bar>d\<bar> < 2 ^ 53"
  shows "\<exists>q. py_truediv (INPUT_SAMPLE_RATE * d) 1000 = Inr q \<and> float_trunc q = 16 * d"
proof -
  have q: "(of_int (INPUT_SAMPLE_RATE * d) :: rat) / of_int 1000 = of_int d * 2 powi 4"
    by (simp add: INPUT_SAMPLE_RATE_def)
  have "\<bar>of_int d * (2::rat) powi 4\<bar> = of_int (\<bar>d\<bar> * 16)" by (simp add: abs_mult)
  also have "\<dots> \<le> of_int (2 ^ 57)" using assms by (simp only: of_int_le_iff) simp
  also have "\<dots> \<le> 2 powi 1023" by simp
  finally have "\<not> overflows binary64 (of_int d * 2 powi 4)" by (rule not_overflows64)
  moreover have "fround binary64 (of_int d * 2 powi 4) = of_int d * 2 powi 4"
    by (rule fround64_scaled) (use assms in simp_all)
  moreover have "of_int d * (2::rat) powi 4 = of_int (16 * d)" by simp
  ultimately have "py_truediv (INPUT_SAMPLE_RATE * d) 1000 = Inr (of_int (16 * d))"
    unfolding py_truediv_def q by simp
  then show ?thesis using float_trunc_of_int [of "16 * d"] by blast
qed

lemma create_audio_chunks_pos:
  assumes "1 \<le> d" "d < 2 ^ 53"
  shows "create_audio_chunks x d = Inr (chunks_loop x (nat (16 * d)) 0)"
proof -
  obtain q where "py_truediv (INPUT_SAMPLE_RATE * d) 1000 = Inr q" "float_trunc q = 16 * d"
    using chunk_quotient [of d] assms by auto
  then show ?thesis using assms(1)
    by (simp add: create_audio_chunks_def Let_def)
qed

lemma chunk_quotient_neg:
  assumes "d < 0" "py_truediv (INPUT_SAMPLE_RATE * d) 1000 = Inr q"
  shows "float_trunc q < 0"
proof -
  have q: "q = fround binary64 (of_int (16 * d))"
    using assms(2) by (simp add: py_truediv_def INPUT_SAMPLE_RATE_def split: if_splits)
  have "(of_int (16 * d) :: rat) \<le> of_int (- 16)" using assms(1) by simp
  then have "q \<le> fround binary64 (of_int (- 16))"
    unfolding q by (rule fround_mono) (simp add: binary64_simps)
  also have "fround binary64 (of_int (- 16)) = of_int (- 16)"
    by (rule fround_of_int) (simp_all add: binary64_simps)
  finally have "q \<le> - 16" by simp
  then have "q < 0" "\<lceil>q\<rceil> \<le> - 16" by (simp_all add: ceiling_le_iff)
  then show ?thesis by (simp add: float_trunc_def)
qed

lemma create_audio_chunks_neg:
  assumes "d < 0"
  shows "create_audio_chunks x d = Inr [] \<or> create_audio_chunks x d = Inl OverflowError"
proof (cases "py_truediv (INPUT_SAMPLE_RATE * d) 1000")
  case (Inl e)
  then have "e = OverflowError" by (simp add: py_truediv_def split: if_splits)
  with Inl show ?thesis by (simp add: create_audio_chunks_def)
next
  case (Inr q)
  from chunk_quotient_neg [OF assms Inr] Inr show ?thesis
    by (simp add: create_audio_chunks_def Let_def)
qed

lemma create_audio_chunks_0: "create_audio_chunks x 0 = Inl ValueError"
proof -
  obtain q where "py_truediv (INPUT_SAMPLE_RATE * 0) 1000 = Inr q" "float_trunc q = 16 * 0"
    using chunk_quotient [of 0] by auto
  then show ?thesis by (simp add: create_audio_chunks_def)
qed

lemma chunks_loop_step:
  "i < length xs \<Longrightarrow> 0 < n \<Longrightarrow>
   chunks_loop xs n i = take n (drop i xs) # chunks_loop xs n (i + n)"
  by (subst chunks_loop.simps) simp

lemma nth_chunks_loop:
  "k < length (chunks_loop xs n i) \<Longrightarrow> chunks_loop xs n i ! k = take n (drop (i + k * n) xs)"
proof (induction xs n i arbitrary: k rule: chunks_loop.induct)
  case (1 xs n i)
  show ?case
  proof (cases "i < length xs \<and> 0 < n")
    case True
    then have eq: "chunks_loop xs n i = take n (drop i xs) # chunks_loop xs n (i + n)"
      by (simp add: chunks_loop_step)
    show ?thesis
    proof (cases k)
      case 0
      then show ?thesis by (simp add: eq)
    next
      case (Suc j)
      with "1.prems" eq have "j < length (chunks_loop xs n (i + n))" by simp
      with True have "chunks_loop xs n (i + n) ! j = take n (drop (i + n + j * n) xs)"
        by (rule "1.IH")
      then show ?thesis using Suc eq by (simp add: add.assoc)
    qed
  next
    case False
    then have "chunks_loop xs n i = []" by (simp add: chunks_loop_Nil_iff)
    with "1.prems" show ?thesis by simp
  qed
qed

lemma length_chunks_loop_eq:
  "0 < n \<Longrightarrow> length (chunks_loop xs n i) = (length xs - i + n - 1) div n"
proof (induction xs n i rule: chunks_loop.induct)
  case (1 xs n i)
  show ?case
  proof (cases "i < length xs")
    case True
    with "1.prems" have eq: "chunks_loop xs n i = take n (drop i xs) # chunks_loop xs n (i + n)"
      by (simp add: chunks_loop_step)
    from True "1.prems" have IH: "length (chunks_loop xs n (i + n)) = (length xs - (i + n) + n - 1) div n"
      by (intro "1.IH") simp_all
    show ?thesis
    proof (cases "i + n < length xs")
      case True
      define m where "m = length xs - (i + n) + n - 1"
      have "length xs - i + n - 1 = m + n" using True by (simp add: m_def)
      moreover have "(m + n) div n = m div n + 1" using "1.prems" by simp
      ultimately have "(length xs - i + n - 1) div n = m div n + 1" by (simp only:)
      moreover have "length (chunks_loop xs n i) = m div n + 1"
        unfolding eq using IH by (simp add: m_def)
      ultimately show ?thesis by (simp only:)
    next
      case False
      then have r: "length xs - (i + n) + n - 1 = n - 1" by simp
      have "n \<le> length xs - i + n - 1" "length xs - i + n - 1 < 2 * n"
        using True False by simp_all
      then have "(length xs - i + n - 1) div n = 1"
        by (intro div_nat_eqI) simp_all
      moreover have "chunks_loop xs n (i + n) = []"
        using False by (simp add: chunks_loop_Nil_iff)
      then have "length (chunks_loop xs n i) = 1" unfolding eq by simp
      ultimately show ?thesis by (simp only:)
    qed
  next
    case False
    then have "chunks_loop xs n i = []" by (simp add: chunks_loop_Nil_iff)
    moreover from False "1.prems" have "(length xs - i + n - 1) div n = 0" by simp
    ultimately show ?thesis by simp
  qed
qed

lemma chunks_loop_sizes:
  "c \<in> set (chunks_loop xs n i) \<Longrightarrow> 1 \<le> length c \<and> length c \<le> n"
proof (induction xs n i rule: chunks_loop.induct)
  case (1 xs n i)
  show ?case
  proof (cases "i < length xs \<and> 0 < n")
    case True
    then have eq: "chunks_loop xs n i = take n (drop i xs) # chunks_loop xs n (i + n)"
      by (simp add: chunks_loop_step)
    from "1.prems" eq consider "c = take n (drop i xs)" | "c \<in> set (chunks_loop xs n (i + n))"
      by auto
    then show ?thesis
    proof cases
      case 1
      with True show ?thesis by (simp add: Suc_le_eq)
    next
      case 2
      with True show ?thesis by (intro "1.IH") simp_all
    qed
  next
    case False
    then have "chunks_loop xs n i = []" by (simp add: chunks_loop_Nil_iff)
    with "1.prems" show ?thesis by simp
  qed
qed

lemma chunk_quotient_pos:
  assumes "1 \<le> d" "py_truediv (INPUT_SAMPLE_RATE * d) 1000 = Inr q"
  shows "16 \<le> float_trunc q"
proof -
  have q: "q = fround binary64 (of_int (16 * d))"
    using assms(2) by (simp add: py_truediv_def INPUT_SAMPLE_RATE_def split: if_splits)
  have "fround binary64 (of_int 16) = of_int 16"
    by (rule fround_of_int) (simp_all add: binary64_simps)
  moreover have "(of_int 16 :: rat) \<le> of_int (16 * d)" using assms(1) by simp
  then have "fround binary64 (of_int 16) \<le> q"
    unfolding q by (rule fround_mono) (simp add: binary64_simps)
  ultimately have "16 \<le> q" by simp
  then have "0 \<le> q" "16 \<le> \<lfloor>q\<rfloor>" by (simp_all add: le_floor_iff)
  then show ?thesis by (simp add: float_trunc_def)
qed

lemma create_audio_chunks_returns:
  assumes "1 \<le> d" "create_audio_chunks x d = Inr chunks"
  shows "\<exists>n. 16 \<le> n \<and> chunks = chunks_loop x n 0 \<and>
           int n = float_trunc (fround binary64 (rat_of_int (INPUT_SAMPLE_RATE * d) / 1000)) \<and>
           (d < 2 ^ 53 \<longrightarrow> int n = INPUT_SAMPLE_RATE * d div 1000)"
proof -
  from assms(2) obtain q where q: "py_truediv (INPUT_SAMPLE_RATE * d) 1000 = Inr q"
    by (cases "py_truediv (INPUT_SAMPLE_RATE * d) 1000") (simp_all add: create_audio_chunks_def)
  then have qr: "q = fround binary64 (rat_of_int (INPUT_SAMPLE_RATE * d) / 1000)"
    by (simp add: py_truediv_def split: if_splits)
  from chunk_quotient_pos [OF assms(1) q] have n: "16 \<le> float_trunc q" .
  with assms(2) q have c: "chunks = chunks_loop x (nat (float_trunc q)) 0"
    by (simp add: create_audio_chunks_def Let_def)
  have exact: "float_trunc q = INPUT_SAMPLE_RATE * d div 1000" if "d < 2 ^ 53"
  proof -
    from chunk_quotient [of d] assms(1) that obtain q'
      where "py_truediv (INPUT_SAMPLE_RATE * d) 1000 = Inr q'" "float_trunc q' = 16 * d" by auto
    with q show ?thesis by (simp add: INPUT_SAMPLE_RATE_def)
  qed
  define n where "n = nat (float_trunc q)"
  have i: "int n = float_trunc q" using n by (simp add: n_def)
  have n16: "16 \<le> n" using n by (simp add: n_def)
  have c': "chunks = chunks_loop x n 0" using c by (simp add: n_def)
  have fl: "d < 2 ^ 53 \<longrightarrow> int n = INPUT_SAMPLE_RATE * d div 1000"
    using exact i by simp
  have fr: "int n = float_trunc (fround binary64 (rat_of_int (INPUT_SAMPLE_RATE * d) / 1000))"
    using i by (simp only: qr)
  from n16 c' fr fl show ?thesis by blast
qed

text \<open>
  Claim C6, as amended. For every buffer \<open>x\<close> and every chunk duration \<open>d \<ge> 1\<close>,
  whatever \<open>create_audio_chunks\<close> returns is the partition of \<open>x\<close> into consecutive
  slices of the chunk size \<open>n = int (INPUT_SAMPLE_RATE * d / 1000)\<close>: chunk \<open>k\<close> is
  \<open>x[k * n : k * n + n]\<close>, there are \<open>ceil (len x / n)\<close> chunks, their concatenation
  is \<open>x\<close>, every chunk except the last has length \<open>n\<close>, the last one is not empty
  and not longer than \<open>n\<close>, and the empty buffer gives no chunk. For \<open>d < 2 ^ 53\<close>
  the call returns and \<open>n\<close> is \<open>floor (INPUT_SAMPLE_RATE * d / 1000)\<close>; beyond, the
  float quotient is rounded. The claim as stated asks this of every duration; for
  \<open>d \<le> 0\<close> it fails (see claim C10).
\<close>

theorem chunking_complete:
  assumes "1 \<le> d"
  shows "(d < 2 ^ 53 \<longrightarrow> (\<exists>chunks. create_audio_chunks x d = Inr chunks)) \<and>
    (\<forall>chunks. create_audio_chunks x d = Inr chunks \<longrightarrow>
       concat chunks = x \<and> (x = [] \<longrightarrow> chunks = []) \<and>
       (\<exists>n. 1 \<le> n \<and>
          int n = float_trunc (fround binary64 (rat_of_int (INPUT_SAMPLE_RATE * d) / 1000)) \<and>
          (d < 2 ^ 53 \<longrightarrow> int n = INPUT_SAMPLE_RATE * d div 1000) \<and>
          length chunks = (length x + n - 1) div n \<and>
          (\<forall>k < length chunks. chunks ! k = take n (drop (k * n) x)) \<and>
          (\<forall>k. Suc k < length chunks \<longrightarrow> length (chunks ! k) = n) \<and>
          (\<forall>c \<in> set chunks. 1 \<le> length c \<and> length c \<le> n)))"
proof -
  have returns: "d < 2 ^ 53 \<longrightarrow> (\<exists>chunks. create_audio_chunks x d = Inr chunks)"
    using assms create_audio_chunks_pos [of d x] by simp
  have partition: "concat chunks = x \<and> (x = [] \<longrightarrow> chunks = []) \<and>
      (\<exists>n. 1 \<le> n \<and>
         int n = float_trunc (fround binary64 (rat_of_int (INPUT_SAMPLE_RATE * d) / 1000)) \<and>
         (d < 2 ^ 53 \<longrightarrow> int n = INPUT_SAMPLE_RATE * d div 1000) \<and>
         length chunks = (length x + n - 1) div n \<and>
         (\<forall>k < length chunks. chunks ! k = take n (drop (k * n) x)) \<and>
         (\<forall>k. Suc k < length chunks \<longrightarrow> length (chunks ! k) = n) \<and>
         (\<forall>c \<in> set chunks. 1 \<le> length c \<and> length c \<le> n))"
    if r: "create_audio_chunks x d = Inr chunks" for chunks
  proof -
    from create_audio_chunks_returns [OF assms r] obtain n where
      n: "16 \<le> n" "chunks = chunks_loop x n 0"
        "int n = float_trunc (fround binary64 (rat_of_int (INPUT_SAMPLE_RATE * d) / 1000))"
        "d < 2 ^ 53 \<longrightarrow> int n = INPUT_SAMPLE_RATE * d div 1000"
      by blast
    then have n0: "0 < n" by simp
    have c: "concat chunks = x" using concat_chunks_loop [OF n0, of x 0] by (simp add: n(2))
    have e: "x = [] \<longrightarrow> chunks = []" by (simp add: n(2) chunks_loop_Nil_iff)
    have n1: "1 \<le> n" using n(1) by simp
    have l: "length chunks = (length x + n - 1) div n"
      using length_chunks_loop_eq [OF n0, of x 0] by (simp add: n(2))
    have k: "\<forall>k < length chunks. chunks ! k = take n (drop (k * n) x)"
      using nth_chunks_loop [of _ x n 0] by (simp add: n(2))
    have f: "\<forall>k. Suc k < length chunks \<longrightarrow> length (chunks ! k) = n"
      using length_chunks_loop [of _ x n 0] by (simp add: n(2))
    have s: "\<forall>c \<in> set chunks. 1 \<le> length c \<and> length c \<le> n"
      using chunks_loop_sizes [of _ x n 0] by (simp add: n(2))
    from n1 n(3,4) l k f s have "\<exists>n. 1 \<le> n \<and>
        int n = float_trunc (fround binary64 (rat_of_int (INPUT_SAMPLE_RATE * d) / 1000)) \<and>
        (d < 2 ^ 53 \<longrightarrow> int n = INPUT_SAMPLE_RATE * d div 1000) \<and>
        length chunks = (length x + n - 1) div n \<and>
        (\<forall>k < length chunks. chunks ! k = take n (drop (k * n) x)) \<and>
        (\<forall>k. Suc k < length chunks \<longrightarrow> length (chunks ! k) = n) \<and>
        (\<forall>c \<in> set chunks. 1 \<le> length c \<and> length c \<le> n)"
      by (intro exI [of _ n]) simp
    with c e show ?thesis by simp
  qed
  from returns partition show ?thesis by blast
qed

theorem chunking_complete_witness:
  "(1::int) \<le> 1 \<and> (1::int) < 2 ^ 53 \<and>
   create_audio_chunks [0 ..< 20] 1 = Inr [[0 ..< 16], [16 ..< 20]]"
proof -
  let ?x = "[0 ..< 20]"
  note inst = chunking_complete [of 1 ?x]
  from inst obtain chunks where r: "create_audio_chunks ?x 1 = Inr chunks" by auto
  with inst obtain n where n: "int n = INPUT_SAMPLE_RATE * 1 div 1000"
      "length chunks = (length ?x + n - 1) div n"
      "\<forall>k < length chunks. chunks ! k = take n (drop (k * n) ?x)"
    by auto
  from n(1) have n16: "n = 16" by (simp add: INPUT_SAMPLE_RATE_def)
  from n(2) have len: "length chunks = 2" by (simp add: n16)
  from n(3) len have "chunks ! 0 = [0 ..< 16]" "chunks ! 1 = [16 ..< 20]"
    by (simp_all add: n16)
  with len have "chunks = [[0 ..< 16], [16 ..< 20]]"
    by (intro nth_equalityI) (auto simp: less_Suc_eq numeral_2_eq_2)
  with r show ?thesis by simp
qed

theorem chunking_negative_duration_loses_samples:
  "create_audio_chunks [7 :: int] (- 1) = Inr [] \<and> concat ([] :: int list list) \<noteq> [7]"
proof -
  obtain q where "py_truediv (INPUT_SAMPLE_RATE * (- 1)) 1000 = Inr q" "float_trunc q = 16 * (- 1)"
    using chunk_quotient [of "- 1"] by auto
  then show ?thesis by (simp add: create_audio_chunks_def)
qed

lemma overflows_below:
  assumes "q \<le> - (2 powi 1024)"
  shows "overflows binary64 q"
proof -
  have r: "fround binary64 (2 powi 1024) = 2 powi 1024"
    using fround_representable [where fmt = binary64 and m = 1 and k = 1024, OF refl]
    by (simp add: binary64_simps)
  have "fround binary64 q \<le> fround binary64 (- (2 powi 1024))"
    by (rule fround_mono [OF assms]) (simp add: binary64_simps)
  then have "fround binary64 q \<le> - (2 powi 1024)" by (simp only: fround_minus r)
  then have "2 powi 1024 \<le> \<bar>fround binary64 q\<bar>" by linarith
  then show ?thesis by (simp add: overflows_def binary64_simps)
qed

text \<open>
  Claim C10, as amended. A chunk duration of zero makes \<open>create_audio_chunks\<close> fail
  with \<open>ValueError\<close> (the step of \<open>range\<close> is zero). A negative duration gives no
  chunk at all, whatever the buffer, or fails with \<open>OverflowError\<close>; it gives no chunk
  whenever \<open>- (2 ^ 53) < d\<close>. So for \<open>d \<le> 0\<close> the chunks of a non-empty buffer
  never concatenate to it, and the chunk size \<open>floor (INPUT_SAMPLE_RATE * d / 1000)\<close> is
  at least 1 exactly when \<open>d \<ge> 1\<close>. The claim as stated says that every negative
  duration returns zero chunks: at \<open>d = - (10 ^ 400)\<close> the quotient
  \<open>INPUT_SAMPLE_RATE * d / 1000\<close> is too large for a float and the call raises.
\<close>

theorem chunk_duration_precondition:
  "create_audio_chunks x 0 = Inl ValueError \<and>
   (\<forall>d. d < 0 \<longrightarrow>
      create_audio_chunks x d = Inr [] \<or> create_audio_chunks x d = Inl OverflowError) \<and>
   (\<forall>d. - (2 ^ 53) < d \<and> d < 0 \<longrightarrow> create_audio_chunks x d = Inr []) \<and>
   (\<forall>d chunks. d \<le> 0 \<and> x \<noteq> [] \<and> create_audio_chunks x d = Inr chunks \<longrightarrow> concat chunks \<noteq> x) \<and>
   (\<forall>d. (1 \<le> INPUT_SAMPLE_RATE * d div 1000) = (1 \<le> d))"
proof (intro conjI allI impI)
  show "create_audio_chunks x 0 = Inl ValueError" by (rule create_audio_chunks_0)
next
  fix d :: int assume "d < 0"
  then show "create_audio_chunks x d = Inr [] \<or> create_audio_chunks x d = Inl OverflowError"
    by (rule create_audio_chunks_neg)
next
  fix d :: int assume d: "- (2 ^ 53) < d \<and> d < 0"
  then obtain q where "py_truediv (INPUT_SAMPLE_RATE * d) 1000 = Inr q" "float_trunc q = 16 * d"
    using chunk_quotient [of d] by auto
  then show "create_audio_chunks x d = Inr []" using d
    by (simp add: create_audio_chunks_def Let_def)
next
  fix d :: int and chunks :: "'a list list"
  assume a: "d \<le> 0 \<and> x \<noteq> [] \<and> create_audio_chunks x d = Inr chunks"
  then have "chunks = []"
    using create_audio_chunks_0 [of x] create_audio_chunks_neg [of d x] by (cases "d = 0") auto
  with a show "concat chunks \<noteq> x" by auto
next
  fix d :: int show "(1 \<le> INPUT_SAMPLE_RATE * d div 1000) = (1 \<le> d)"
    by (simp add: INPUT_SAMPLE_RATE_def) presburger
qed

theorem chunk_duration_precondition_witness:
  "create_audio_chunks [7 :: int] 0 = Inl ValueError \<and>
   create_audio_chunks [7 :: int] (- 100) = Inr []"
  using chunk_duration_precondition [of "[7 :: int]"] by simp

theorem chunk_duration_overflow:
  "create_audio_chunks [7 :: int] (- (10 ^ 400)) = Inl OverflowError"
proof -
  have "rat_of_int (INPUT_SAMPLE_RATE * (- (10 ^ 400))) / rat_of_int 1000 \<le> - (2 powi 1024)"
    by (simp add: INPUT_SAMPLE_RATE_def)
  then have "overflows binary64 (rat_of_int (INPUT_SAMPLE_RATE * (- (10 ^ 400))) / rat_of_int 1000)"
    by (rule overflows_below)
  then have "py_truediv (INPUT_SAMPLE_RATE * (- (10 ^ 400))) 1000 = Inl OverflowError"
    unfolding py_truediv_def by (simp only: if_True if_False) simp
  then show ?thesis by (simp only: create_audio_chunks_def sum.case)
qed

lemma py_truediv_0: "b \<noteq> 0 \<Longrightarrow> py_truediv 0 b = Inr 0"
  by (simp add: py_truediv_def fround_0 overflows_def not_le)

lemma run_call_sample_rate: "sample_rate (run_call self c) = sample_rate self"
  by (cases c) (simp_all add: add_chunk_def clear_def)

lemma run_call_invariant:
  "total_samples self = int (length (concat (buffer self))) \<Longrightarrow>
   total_samples (run_call self c) = int (length (concat (buffer (run_call self c))))"
  by (cases c) (simp_all add: add_chunk_def clear_def)

lemma run_calls_invariant:
  "total_samples self = int (length (concat (buffer self))) \<Longrightarrow>
   total_samples (run_calls self calls) = int (length (concat (buffer (run_calls self calls)))) \<and>
   sample_rate (run_calls self calls) = sample_rate self"
  unfolding run_calls_def
  by (induction calls arbitrary: self) (simp_all add: run_call_invariant run_call_sample_rate)

subsection \<open>Accumulation buffer\<close>

text \<open>
  Claim C7. After construction and any finite sequence of \<open>add_chunk\<close> and \<open>clear\<close>
  calls, \<open>total_samples\<close> is the sum of the lengths of the held chunks, so that
  \<open>get_duration\<close> is that sum divided by the sample rate; after \<open>clear\<close> the buffer
  is empty, its count is 0, and, for a positive sample rate, its duration is 0.
\<close>

theorem audio_buffer_invariant:
  "(let self = run_calls (init sr) calls in
      total_samples self = int (sum_list (map length (buffer self))) \<and>
      get_duration self = py_truediv (int (sum_list (map length (buffer self)))) sr \<and>
      is_empty (clear self) \<and> total_samples (clear self) = 0 \<and>
      (0 < sr \<longrightarrow> get_duration (clear self) = Inr 0))"
proof -
  define self where "self = run_calls (init sr) calls"
  have "total_samples (init sr :: 'a audio_buffer) =
      int (length (concat (buffer (init sr :: 'a audio_buffer))))"
    by (simp add: init_def)
  from run_calls_invariant [OF this, of calls]
  have inv: "total_samples self = int (length (concat (buffer self)))"
    and sr: "sample_rate self = sr"
    by (simp_all add: self_def init_def)
  have "total_samples self = int (sum_list (map length (buffer self))) \<and>
      get_duration self = py_truediv (int (sum_list (map length (buffer self)))) sr \<and>
      is_empty (clear self) \<and> total_samples (clear self) = 0 \<and>
      (0 < sr \<longrightarrow> get_duration (clear self) = Inr 0)"
    using inv sr by (simp add: get_duration_def clear_def is_empty_def py_truediv_0 length_concat)
  then show ?thesis by (simp add: self_def Let_def)
qed

theorem audio_buffer_invariant_witness:
  "(let self = run_calls (init 24000) [Add_chunk [1, 2, 3 :: int], Clear, Add_chunk [4, 5]] in
      total_samples self = 2 \<and> buffer self = [[4, 5]] \<and>
      is_empty (clear self) \<and> get_duration (clear self) = Inr 0)"
  using audio_buffer_invariant [of 24000 "[Add_chunk [1, 2, 3 :: int], Clear, Add_chunk [4, 5]]"]
  by (simp add: run_calls_def init_def add_chunk_def clear_def Let_def)

lemma buffer_foldl_add_chunk: "buffer (foldl add_chunk b cs) = buffer b @ cs"
  by (induction cs arbitrary: b) (simp_all add: add_chunk_def)

text \<open>
  Claim C9. \<open>get_all_audio\<close> returns the concatenation of the held chunks in the order
  in which \<open>add_chunk\<close> received them, the empty buffer when none is held, and leaves
  the object as it was.
\<close>

theorem get_all_audio_frame:
  "fst (get_all_audio self) = concat (buffer self) \<and> snd (get_all_audio self) = self \<and>
   fst (get_all_audio (foldl add_chunk (init sr) chunks)) = concat chunks \<and>
   get_all_audio (init sr) = ([], init sr)"
  by (simp add: get_all_audio_def buffer_foldl_add_chunk) (simp add: init_def)

subsection \<open>Sample format converters and the format pipeline\<close>

lemma rhe_nearest:
  assumes "\<bar>z - of_int m\<bar> < 1 / 2"
  shows "round_half_even z = m"
proof -
  have "\<bar>(of_int (round_half_even z) :: rat) - of_int m\<bar> < 1"
    using rhe_bounds [of z] assms by linarith
  then have "\<bar>round_half_even z - m\<bar> < 1"
    by (metis of_int_abs of_int_diff of_int_less_1_iff)
  then show ?thesis by simp
qed

lemma fround_nearest:
  assumes "2 powi e \<le> \<bar>q\<bar>" "\<bar>q\<bar> < 2 powi (e + 1)" "emin fmt \<le> e"
    and "\<bar>q / 2 powi (e - (int (prec fmt) - 1)) - of_int m\<bar> < 1 / 2"
  shows "fround fmt q = of_int m * 2 powi (e - (int (prec fmt) - 1))"
proof -
  have e: "ilog2 q = e" by (rule ilog2_unique [OF assms(1,2)])
  have "0 < \<bar>q\<bar>" by (rule less_le_trans [OF two_powi_pos assms(1)])
  then have "q \<noteq> 0" by simp
  then show ?thesis using assms(3) rhe_nearest [OF assms(4)]
    by (simp add: fround_def ulp_def e max_absorb1)
qed

lemma float_trunc_minus: "float_trunc (- q) = - float_trunc q"
  by (simp add: float_trunc_def ceiling_minus floor_minus) 

lemma float_trunc_nonneg: "0 \<le> q \<Longrightarrow> of_int n \<le> q \<Longrightarrow> q < of_int n + 1 \<Longrightarrow> float_trunc q = n"
  by (simp add: float_trunc_def floor_unique)

lemma np_clip_id: "a \<le> x \<Longrightarrow> x \<le> b \<Longrightarrow> np_clip x a b = x"
  by (simp add: np_clip_def)

lemma float32_to_int16_example:
  "float32_to_int16 (Float32 [1 / 2, - (1 / 2), 0]) = [16383, - 16383, 0]"
proof -
  have r: "fround binary32 (32767 / 2) = 32767 / 2"
    using fround_representable [where fmt = binary32 and m = 32767 and k = "- 1", OF refl]
    by (simp add: binary32_simps)
  have t: "float_trunc (32767 / 2) = 16383"
    by (rule float_trunc_nonneg) simp_all
  have a: "astype_int16 (fmul binary32 (np_clip (1 / 2) (- 1) 1) 32767) = 16383"
    by (simp add: np_clip_id fmul_def astype_int16_def r t Let_def)
  have "fmul binary32 (np_clip (- (1 / 2)) (- 1) 1) 32767 = - (32767 / 2)"
    using fround_minus [of binary32 "32767 / 2"] by (simp add: np_clip_id fmul_def r)
  then have b: "astype_int16 (fmul binary32 (np_clip (- (1 / 2)) (- 1) 1) 32767) = - 16383"
    using float_trunc_minus [of "32767 / 2"] by (simp add: astype_int16_def t Let_def)
  have c: "astype_int16 (fmul binary32 (np_clip 0 (- 1) 1) 32767) = 0"
    by (simp add: np_clip_id fmul_def astype_int16_def fround_0 float_trunc_def Let_def)
  show ?thesis using a b c by simp
qed

lemma decode_encode: "decode_base64_to_audio (encode_audio_to_base64 buf) = Inr buf"
  by (simp add: decode_base64_to_audio_def encode_audio_to_base64_def b64decode_b64encode
      frombuffer_tobytes)

text \<open>
  Claim C3. For the float32 samples \<open>[0.5, -0.5, 0.0]\<close> at 16000 Hz,
  \<open>convert_to_gemini_input_format\<close> returns a transport string that
  \<open>decode_base64_to_audio\<close> maps back to \<open>[16383, -16383, 0]\<close>, which is
  \<open>[16383, -16384, 0]\<close> up to one quantisation step in each sample (the conversion to
  int16 drops the fraction of \<open>-16383.5\<close> towards zero).
\<close>

theorem end_to_end_example:
  "\<exists>s buf. convert_to_gemini_input_format (Float32 [1 / 2, - (1 / 2), 0]) 16000 ''float32'' = Inr s \<and>
     decode_base64_to_audio s = Inr buf \<and>
     map sint buf = [16383, - 16383, 0] \<and>
     list_all2 (\<lambda>a b. \<bar>a - b\<bar> \<le> 1) (map sint buf) [16383, - 16384, 0]"
proof -
  have "convert_to_gemini_input_format (Float32 [1 / 2, - (1 / 2), 0]) 16000 ''float32'' =
      Inr (encode_audio_to_base64 [16383, - 16383, 0])"
    by (simp add: convert_to_gemini_input_format_def INPUT_SAMPLE_RATE_def
        float32_to_int16_example del: float32_to_int16.simps)
  moreover have "decode_base64_to_audio (encode_audio_to_base64 [16383, - 16383, 0]) =
      Inr [16383, - 16383, 0]"
    by (rule decode_encode)
  moreover have "map sint [16383, - 16383, 0 :: int16] = [16383, - 16383, 0]" by simp
  ultimately show ?thesis by (intro exI [of _ "encode_audio_to_base64 [16383, - 16383, 0]"]
        exI [of _ "[16383, - 16383, 0]"]) simp
qed

lemma sint_int16: "- 32768 \<le> t \<Longrightarrow> t < 32768 \<Longrightarrow> sint (word_of_int t :: int16) = t"
  by (simp add: signed_of_int signed_take_bit_int_eq_self)

lemma quantize_nonneg:
  assumes "0 \<le> x" "x \<le> 1" "16 \<le> prec fmt" "emin fmt \<le> 0"
  defines "t \<equiv> float_trunc (fround fmt (x * 32767))"
  shows "0 \<le> t \<and> t \<le> 32767 \<and> \<bar>of_int t - 32768 * x\<bar> < 2"
proof -
  define q where "q = x * 32767"
  define n where "n = \<lfloor>q\<rfloor>"
  define r where "r = fround fmt q"
  have p: "0 < prec fmt" "emin fmt \<le> int (prec fmt) - 1" using assms(3,4) by simp_all
  have q: "0 \<le> q" "q \<le> 32767" using assms(1,2) by (simp_all add: q_def)
  have n: "of_int n \<le> q" "q < of_int n + 1" "0 \<le> n" "n \<le> 32767"
    using q by (simp_all add: n_def floor_le_iff) linarith
  have small: "\<bar>k\<bar> < 2 ^ prec fmt" if "\<bar>k\<bar> \<le> 32768" for k :: int
  proof -
    have "(2::int) ^ 16 \<le> 2 ^ prec fmt" using assms(3) by (intro power_increasing) simp_all
    with that show ?thesis by simp
  qed
  have fixed: "fround fmt (of_int k) = of_int k" if "\<bar>k\<bar> \<le> 32768" for k :: int
    by (rule fround_of_int [OF small [OF that] p(2)])
  have "fround fmt (of_int n) \<le> r" unfolding r_def by (rule fround_mono [OF n(1) p(1)])
  then have lo: "of_int n \<le> r" using fixed [of n] n(3,4) by simp
  have "r \<le> fround fmt (of_int (n + 1))"
    unfolding r_def by (rule fround_mono [OF _ p(1)]) (use n(2) in simp)
  then have hi: "r \<le> of_int (n + 1)" using fixed [of "n + 1"] n(3,4) by simp
  have "r \<le> fround fmt (of_int 32767)"
    unfolding r_def by (rule fround_mono [OF _ p(1)]) (use q(2) in simp)
  then have top: "r \<le> 32767" using fixed [of 32767] by simp
  have r0: "0 \<le> r" using lo n(3) by (metis of_int_0_le_iff order_trans)
  have t: "t = \<lfloor>r\<rfloor>" using r0 by (simp add: t_def r_def q_def float_trunc_def)
  have t1: "n \<le> t" using lo by (simp add: t le_floor_iff)
  have t2: "t \<le> n + 1" using hi unfolding t by (metis floor_mono floor_of_int)
  have t3: "t \<le> 32767" using top unfolding t by (metis floor_mono floor_numeral)
  have t4: "of_int t \<le> r" by (simp add: t)
  have bound: "\<bar>of_int t - 32768 * x\<bar> < 2"
  proof (cases "t = n")
    case True
    then show ?thesis using n(1,2) assms(1,2) by (simp add: q_def)
  next
    case False
    with t1 t2 have tn: "t = n + 1" by simp
    then show ?thesis using n(1,2) assms(1,2) by (simp add: q_def)
  qed
  show ?thesis using t1 n(3) t3 bound by simp
qed

lemma quantize:
  assumes "- 1 \<le> x" "x \<le> 1" "16 \<le> prec fmt" "emin fmt \<le> 0"
  defines "t \<equiv> float_trunc (fround fmt (x * 32767))"
  shows "- 32767 \<le> t \<and> t \<le> 32767 \<and> \<bar>of_int t - 32768 * x\<bar> < 2"
proof (cases "0 \<le> x")
  case True
  from quantize_nonneg [OF True assms(2,3,4)] show ?thesis by (simp add: t_def)
next
  case False
  then have x: "0 \<le> - x" "- x \<le> 1" using assms(1) by simp_all
  have "t = - float_trunc (fround fmt (- x * 32767))"
    using fround_minus [of fmt "- x * 32767"] float_trunc_minus [of "fround fmt (- x * 32767)"]
    by (simp add: t_def)
  with quantize_nonneg [OF x assms(3,4)] show ?thesis by (auto simp: abs_less_iff)
qed

lemma dequantize:
  assumes "- 32768 \<le> t" "t < 32768"
  shows "int16_to_float32 [word_of_int t] = [of_int t / 32768]"
proof -
  have a: "fround binary32 (of_int t) = of_int t"
    by (rule fround_of_int) (use assms in \<open>simp_all add: binary32_simps\<close>)
  have "fround binary32 (of_int t * 2 powi (- 15)) = of_int t * 2 powi (- 15)"
    by (rule fround_representable [OF refl]) (use assms in \<open>simp_all add: binary32_simps\<close>)
  then have b: "fround binary32 (of_int t / 32768) = of_int t / 32768" by simp
  show ?thesis
    by (simp only: int16_to_float32_def list.map fdiv_def sint_int16 [OF assms] a b)
qed

text \<open>
  Claim C2, as amended. For every sample \<open>x\<close> in \<open>[-1, 1]\<close>, in a float32 or a
  float64 buffer, \<open>int16_to_float32 (float32_to_int16 [x])\<close> is within \<open>1 / 16384\<close>
  of \<open>x\<close>, that is within two quantisation steps. The bound \<open>1 / 32767\<close> of the claim
  as stated does not hold: the fraction of \<open>x * 32767\<close> is dropped, which loses up to one
  step, and the way back divides by 32768 instead of 32767, which loses up to another.
  At the float32 number \<open>65535 / 65536\<close> the result is \<open>16383 / 16384\<close>, at a distance of
  \<open>3 / 65536\<close>.
\<close>

theorem quantization_round_trip:
  assumes "- 1 \<le> x" "x \<le> 1"
  shows "\<exists>y y'. int16_to_float32 (float32_to_int16 (Float32 [x])) = [y] \<and>
           \<bar>y - x\<bar> < 1 / 16384 \<and>
           int16_to_float32 (float32_to_int16 (Float64 [x])) = [y'] \<and>
           \<bar>y' - x\<bar> < 1 / 16384"
proof -
  have main: "\<exists>y. int16_to_float32 [astype_int16 (fmul fmt (np_clip x (- 1) 1) 32767)] = [y]
      \<and> \<bar>y - x\<bar> < 1 / 16384" if f: "16 \<le> prec fmt" "emin fmt \<le> 0" for fmt
  proof -
    define t where "t = float_trunc (fround fmt (x * 32767))"
    from quantize [OF assms f] have t: "- 32767 \<le> t" "t \<le> 32767" "\<bar>of_int t - 32768 * x\<bar> < 2"
      by (simp_all add: t_def)
    have A: "astype_int16 (fmul fmt (np_clip x (- 1) 1) 32767) = word_of_int t"
      using assms t(1,2) by (simp add: np_clip_id fmul_def astype_int16_def t_def Let_def)
    have B: "int16_to_float32 [word_of_int t] = [of_int t / 32768]"
      by (rule dequantize) (use t in simp_all)
    have C: "\<bar>(of_int t :: rat) / 32768 - x\<bar> < 1 / 16384"
      using t(3) by (simp add: field_simps abs_less_iff)
    show ?thesis unfolding A B
      by (rule exI [of _ "of_int t / 32768"], rule conjI, rule refl, rule C)
  qed
  from main [of binary32] main [of binary64] show ?thesis
    by (simp add: binary32_simps binary64_simps)
qed

theorem quantization_round_trip_witness:
  "- 1 \<le> (1 / 2 :: rat) \<and> (1 / 2 :: rat) \<le> 1 \<and>
   (\<exists>y y'. int16_to_float32 (float32_to_int16 (Float32 [1 / 2])) = [y] \<and>
      \<bar>y - 1 / 2\<bar> < 1 / 16384 \<and>
      int16_to_float32 (float32_to_int16 (Float64 [1 / 2])) = [y'] \<and>
      \<bar>y' - 1 / 2\<bar> < 1 / 16384)"
  using quantization_round_trip [of "1 / 2"] by simp

theorem quantization_error_exceeds_one_step:
  "- 1 \<le> (65535 / 65536 :: rat) \<and> (65535 / 65536 :: rat) \<le> 1 \<and>
   fround binary32 (65535 / 65536) = 65535 / 65536 \<and>
   int16_to_float32 (float32_to_int16 (Float32 [65535 / 65536])) = [16383 / 16384] \<and>
   \<not> \<bar>16383 / 16384 - 65535 / 65536 :: rat\<bar> \<le> 1 / 32767"
proof -
  have x: "fround binary32 (65535 / 65536) = 65535 / 65536"
    using fround_representable [where fmt = binary32 and m = 65535 and k = "- 16", OF refl]
    by (simp add: binary32_simps)
  have c: "np_clip (65535 / 65536) (- 1) 1 = 65535 / 65536" by (simp add: np_clip_id)
  have m: "fmul binary32 (65535 / 65536) 32767 = 65533 / 2"
    unfolding fmul_def
    using fround_nearest [where fmt = binary32 and e = 14 and m = 16776448
        and q = "65535 / 65536 * 32767"]
    by (simp add: binary32_simps)
  have tr: "float_trunc (65533 / 2) = 32766" by (rule float_trunc_nonneg) simp_all
  have a16: "astype_int16 (65533 / 2) = 32766"
    by (simp add: astype_int16_def tr Let_def)
  have A: "float32_to_int16 (Float32 [65535 / 65536]) = [32766]"
    by (simp only: float32_to_int16.simps list.map c m a16)
  have B: "int16_to_float32 [32766] = [16383 / 16384]"
    using dequantize [of 32766] by simp
  have r: "int16_to_float32 (float32_to_int16 (Float32 [65535 / 65536])) = [16383 / 16384]"
    unfolding A B ..
  show ?thesis unfolding r by (simp add: x)
qed

subsection \<open>Resampler\<close>






lemma py_float_small: "\<bar>n\<bar> < 2 ^ 53 \<Longrightarrow> py_float n = Inr (of_int n)"
proof -
  assume n: "\<bar>n\<bar> < 2 ^ 53"
  have f: "fround binary64 (of_int n) = of_int n"
    by (rule fround_of_int) (use n in \<open>simp_all add: binary64_simps\<close>)
  have "\<bar>of_int n :: rat\<bar> = of_int \<bar>n\<bar>" by simp
  also have "\<dots> \<le> of_int (2 ^ 53)" using n by (simp only: of_int_le_iff)
  also have "\<dots> \<le> 2 powi 1023" by simp
  finally have "\<not> overflows binary64 (of_int n)" by (rule not_overflows64)
  then show ?thesis by (simp add: py_float_def f)
qed

text \<open>
  Claim C8 asks that \<open>resample_audio\<close> returns a buffer for every buffer, the empty
  one included, and every pair of positive rates. The code does not: with the rates 16000
  and 24000 the empty buffer reaches \<open>np.interp\<close> with no sample points, which raises
  \<open>ValueError\<close>, while with equal rates the same buffer is returned unchanged.
\<close>

theorem resample_empty_buffer_raises:
  "resample_audio (Float32 []) 16000 24000 = Inl ValueError \<and>
   resample_audio (Float32 []) 16000 16000 = Inr (Float32 [])"
proof -
  have d: "py_truediv (int (len (Float32 []))) 16000 = Inr 0" by (simp add: py_truediv_0)
  have r: "py_float 24000 = Inr 24000" using py_float_small [of 24000] by simp
  have m: "py_int (py_float_mul 0 24000) = Inr 0"
    by (simp add: py_int_def py_float_mul_def fmul_def fround_0 overflows_def not_le float_trunc_def)
  have l: "np_linspace (int (len (Float32 [])) - 1) 0 = Inr []"
    by (simp add: np_linspace_def Let_def)
  have i: "np_interp [] (np_arange (len (Float32 []))) (as_float64 (Float32 [])) = Inl ValueError"
    by (simp add: np_interp_def np_arange_def)
  have "resample_audio (Float32 []) 16000 24000 = Inl ValueError"
    unfolding resample_audio_def by (simp only: d r m l i sum.case) simp
  then show ?thesis by (simp add: resample_audio_def)
qed











end
